theory Spec2Isabelle
  imports
    Main
    "HOL-Library.Word"
    "HOL-Library.Char_ord"
    "HOL-Library.List_Lexorder"
    "HOL-Library.Multiset"
begin

section \<open>Patch ordering (package diff, patch.go)\<close>

subsection \<open>Panics\<close>

text \<open>
  A Go panic unwinds the call stack; in the model every function that can panic returns
  \<open>panic + 'a\<close>, with \<open>Inl\<close> for the panic.
  \<^item> \<open>Unreachable\<close> is \<^verbatim>\<open>panic("unreachable")\<close> of patch.go;
  \<^item> \<open>IndexOutOfRange\<close> is the run-time panic of a slice read \<^verbatim>\<open>ps.patch[i]\<close> out of range;
  \<^item> \<open>QuestionMark\<close> is \<^verbatim>\<open>panic("?")\<close> of merge.go.
\<close>

datatype panic = Unreachable | IndexOutOfRange | QuestionMark

subsection \<open>Values, path parts, paths\<close>

text \<open>
  \<^verbatim>\<open>types.Value\<close> and \<^verbatim>\<open>types.Format\<close> are declared in the package types, which is not
  part of the sources at hand. The comparison functions only call
  \<^verbatim>\<open>v.Equals(format, w)\<close> and \<^verbatim>\<open>v.Less(format, w)\<close> on values, so the value type \<open>'v\<close>
  and the format type \<open>'f\<close> are type parameters and the two methods are taken as
  parameters, collected in a record.
\<close>

record ('f, 'v) ValueOps =
  Value_Equals :: "'f \<Rightarrow> 'v \<Rightarrow> 'v \<Rightarrow> bool"
  Value_Less :: "'f \<Rightarrow> 'v \<Rightarrow> 'v \<Rightarrow> bool"

text \<open>
  \<^verbatim>\<open>types.PathPart\<close> is a Go interface. The type switches of patch.go know three
  implementations: \<^verbatim>\<open>FieldPath{Name}\<close>, \<^verbatim>\<open>IndexPath{Index, IntoKey}\<close> and
  \<^verbatim>\<open>HashIndexPath{Hash, IntoKey}\<close>. An interface value can also be nil or of some other
  implementing type; \<open>OtherPathPart\<close> stands for those, so that the
  \<^verbatim>\<open>panic("unreachable")\<close> after each type switch is a branch of the model.
  A hash is a byte array; \<^verbatim>\<open>pp.Hash[:]\<close> is its byte slice.
\<close>

datatype 'v PathPart =
    FieldPath string
  | IndexPath 'v bool
  | HashIndexPath "8 word list" bool
  | OtherPathPart

type_synonym 'v Path = "'v PathPart list"

fun isKnownPathPart :: "'v PathPart \<Rightarrow> bool" where
  "isKnownPathPart (FieldPath name) = True"
| "isKnownPathPart (IndexPath idx intoKey) = True"
| "isKnownPathPart (HashIndexPath h intoKey) = True"
| "isKnownPathPart OtherPathPart = False"

subsection \<open>Comparison of byte slices and of strings\<close>

text \<open>
  \<^verbatim>\<open>bytes.Compare(a, b)\<close> of the Go standard library compares two byte slices
  lexicographically (bytes are unsigned) and returns 0 if \<open>a = b\<close>, -1 if \<open>a < b\<close> and
  +1 if \<open>a > b\<close>.

  Go compares strings with \<^verbatim>\<open><\<close> bytewise and lexicographically, which is the order of
  \<open>char list\<close> given by \<open>List_Lexorder\<close> over \<open>Char_ord\<close>.
\<close>

fun bytes_Compare :: "8 word list \<Rightarrow> 8 word list \<Rightarrow> int" where
  "bytes_Compare [] [] = 0"
| "bytes_Compare [] (y # ys) = - 1"
| "bytes_Compare (x # xs) [] = 1"
| "bytes_Compare (x # xs) (y # ys) =
     (if x < y then - 1 else if y < x then 1 else bytes_Compare xs ys)"

subsection \<open>Comparison of path parts\<close>

text \<open>
  \<^verbatim>\<open>fieldPathCompare(pp types.FieldPath, o types.PathPart)\<close>: the first argument of the
  model is \<^verbatim>\<open>pp.Name\<close>.
\<close>

fun fieldPathCompare :: "string \<Rightarrow> 'v PathPart \<Rightarrow> panic + int" where
  "fieldPathCompare ppName (FieldPath oppName) =
     (if ppName = oppName then Inr 0
      else if ppName < oppName then Inr (- 1)
      else Inr 1)"
| "fieldPathCompare ppName (IndexPath oppIndex oppIntoKey) = Inr (- 1)"
| "fieldPathCompare ppName (HashIndexPath oppHash oppIntoKey) = Inr (- 1)"
| "fieldPathCompare ppName OtherPathPart = Inl Unreachable"

text \<open>
  \<^verbatim>\<open>indexPathCompare(format, pp types.IndexPath, o types.PathPart)\<close>: the arguments
  \<open>ppIndex\<close> and \<open>ppIntoKey\<close> are the fields of \<^verbatim>\<open>pp\<close>.
\<close>

fun indexPathCompare ::
  "('f, 'v) ValueOps \<Rightarrow> 'f \<Rightarrow> 'v \<Rightarrow> bool \<Rightarrow> 'v PathPart \<Rightarrow> panic + int" where
  "indexPathCompare V format ppIndex ppIntoKey (FieldPath oppName) = Inr 1"
| "indexPathCompare V format ppIndex ppIntoKey (IndexPath oppIndex oppIntoKey) =
     (if Value_Equals V format ppIndex oppIndex then
        (if ppIntoKey = oppIntoKey then Inr 0
         else if ppIntoKey then Inr (- 1)
         else Inr 1)
      else if Value_Less V format ppIndex oppIndex then Inr (- 1)
      else Inr 1)"
| "indexPathCompare V format ppIndex ppIntoKey (HashIndexPath oppHash oppIntoKey) = Inr (- 1)"
| "indexPathCompare V format ppIndex ppIntoKey OtherPathPart = Inl Unreachable"

text \<open>
  \<^verbatim>\<open>hashIndexPathCompare(pp types.HashIndexPath, o types.PathPart)\<close>. The inner switch
  on the result of \<^verbatim>\<open>bytes.Compare\<close> has the cases -1, 0 and 1 and no default; any other
  result would leave both switches and reach the panic.
\<close>

fun hashIndexPathCompare :: "8 word list \<Rightarrow> bool \<Rightarrow> 'v PathPart \<Rightarrow> panic + int" where
  "hashIndexPathCompare ppHash ppIntoKey (FieldPath oppName) = Inr 1"
| "hashIndexPathCompare ppHash ppIntoKey (IndexPath oppIndex oppIntoKey) = Inr 1"
| "hashIndexPathCompare ppHash ppIntoKey (HashIndexPath oppHash oppIntoKey) =
     (let c = bytes_Compare ppHash oppHash in
      if c = - 1 then Inr (- 1)
      else if c = 0 then
        (if ppIntoKey = oppIntoKey then Inr 0
         else if ppIntoKey then Inr (- 1)
         else Inr 1)
      else if c = 1 then Inr 1
      else Inl Unreachable)"
| "hashIndexPathCompare ppHash ppIntoKey OtherPathPart = Inl Unreachable"

fun pathPartCompare ::
  "('f, 'v) ValueOps \<Rightarrow> 'f \<Rightarrow> 'v PathPart \<Rightarrow> 'v PathPart \<Rightarrow> panic + int" where
  "pathPartCompare V format (FieldPath name) pp2 = fieldPathCompare name pp2"
| "pathPartCompare V format (IndexPath idx intoKey) pp2 =
     indexPathCompare V format idx intoKey pp2"
| "pathPartCompare V format (HashIndexPath h intoKey) pp2 =
     hashIndexPathCompare h intoKey pp2"
| "pathPartCompare V format OtherPathPart pp2 = Inl Unreachable"

subsection \<open>Comparison of paths\<close>

text \<open>
  \<^verbatim>\<open>pathIsLess\<close> ranges over \<^verbatim>\<open>p1\<close> with the index \<open>i\<close>. \<open>pathIsLess_loop\<close> is the loop
  from index \<open>i\<close> on, followed by the final \<^verbatim>\<open>return len(p2) > len(p1)\<close>. The read
  \<^verbatim>\<open>p2[i]\<close> is in range whenever it is reached from \<open>i = 0\<close>, because the loop returns
  as soon as \<^verbatim>\<open>len(p2) == i\<close>; started at an index beyond \<^verbatim>\<open>len(p2)\<close> it would panic.
\<close>

function pathIsLess_loop ::
  "('f, 'v) ValueOps \<Rightarrow> 'f \<Rightarrow> 'v Path \<Rightarrow> 'v Path \<Rightarrow> nat \<Rightarrow> panic + bool" where
  "pathIsLess_loop V format p1 p2 i =
     (if i < length p1 then
        (if length p2 = i then Inr False
         else if length p2 < i then Inl IndexOutOfRange
         else
           (case pathPartCompare V format (p1 ! i) (p2 ! i) of
              Inl e \<Rightarrow> Inl e
            | Inr c \<Rightarrow>
                if c = - 1 then Inr True
                else if c = 1 then Inr False
                else pathIsLess_loop V format p1 p2 (i + 1)))
      else Inr (length p2 > length p1))"
  by pat_completeness auto
termination
  by (relation "measure (\<lambda>(V, format, p1, p2, i). length p1 - i)") auto

definition pathIsLess ::
  "('f, 'v) ValueOps \<Rightarrow> 'f \<Rightarrow> 'v Path \<Rightarrow> 'v Path \<Rightarrow> panic + bool" where
  "pathIsLess V format p1 p2 = pathIsLess_loop V format p1 p2 0"

subsection \<open>Differences and the patch sort\<close>

text \<open>
  Modelled from the spec: \<^verbatim>\<open>types.DiffChangeType\<close> and \<^verbatim>\<open>Difference\<close> are declared outside
  the sources at hand. The spec gives a Difference the fields
  \<open>{Path, ChangeType {Added, Modified, Removed}, OldValue, NewValue}\<close>, with OldValue
  absent for Added and NewValue absent for Removed.
\<close>

datatype DiffChangeType = DiffChangeAdded | DiffChangeRemoved | DiffChangeModified

record 'v Difference =
  Path :: "'v Path"
  ChangeType :: DiffChangeType
  OldValue :: "'v option"
  NewValue :: "'v option"

text \<open>\<^verbatim>\<open>type Patch []Difference\<close> and \<^verbatim>\<open>type PatchSort struct { patch Patch; format *types.Format }\<close>.\<close>

type_synonym 'v Patch = "'v Difference list"

record ('f, 'v) PatchSort =
  patch :: "'v Patch"
  format :: 'f

text \<open>
  The package-level map \<^verbatim>\<open>vals\<close>. Reading a Go map at a key that is not in it gives the
  zero value of the element type; \<open>vals_at\<close> is the index expression \<^verbatim>\<open>vals[c]\<close>.
\<close>

definition vals :: "DiffChangeType \<rightharpoonup> int" where
  "vals = [DiffChangeRemoved \<mapsto> 0, DiffChangeModified \<mapsto> 1, DiffChangeAdded \<mapsto> 2]"

definition vals_at :: "DiffChangeType \<Rightarrow> int" where
  "vals_at c = (case vals c of None \<Rightarrow> 0 | Some n \<Rightarrow> n)"

text \<open>
  Modelled from the spec: \<^verbatim>\<open>types.Path.Equals\<close> is a method of the package types, outside
  the sources at hand. The spec calls two paths for which it holds
  ``an exactly equal Path''.
\<close>

definition Path_Equals :: "'v Path \<Rightarrow> 'v Path \<Rightarrow> bool" where
  "Path_Equals p o' = (p = o')"

text \<open>
  The body of \<^verbatim>\<open>PatchSort.Less\<close> on the two differences \<^verbatim>\<open>ps.patch[i]\<close> and
  \<^verbatim>\<open>ps.patch[j]\<close>.
\<close>

definition Difference_Less ::
  "('f, 'v) ValueOps \<Rightarrow> 'f \<Rightarrow> 'v Difference \<Rightarrow> 'v Difference \<Rightarrow> panic + bool" where
  "Difference_Less V fmt di dj =
     (if Path_Equals (Path di) (Path dj)
      then Inr (vals_at (ChangeType di) < vals_at (ChangeType dj))
      else pathIsLess V fmt (Path di) (Path dj))"

text \<open>A slice index is a Go \<^verbatim>\<open>int\<close>; reading outside \<open>0 \<le> i < len\<close> panics.\<close>

definition inRange :: "'a list \<Rightarrow> int \<Rightarrow> bool" where
  "inRange xs i \<longleftrightarrow> 0 \<le> i \<and> i < int (length xs)"

definition PatchSort_Less ::
  "('f, 'v) ValueOps \<Rightarrow> ('f, 'v) PatchSort \<Rightarrow> int \<Rightarrow> int \<Rightarrow> panic + bool" where
  "PatchSort_Less V ps i j =
     (if inRange (patch ps) i \<and> inRange (patch ps) j
      then Difference_Less V (format ps) (patch ps ! nat i) (patch ps ! nat j)
      else Inl IndexOutOfRange)"

definition PatchSort_Swap ::
  "('f, 'v) PatchSort \<Rightarrow> int \<Rightarrow> int \<Rightarrow> panic + ('f, 'v) PatchSort" where
  "PatchSort_Swap ps i j =
     (if inRange (patch ps) i \<and> inRange (patch ps) j
      then Inr (ps\<lparr>patch := (patch ps)[nat i := patch ps ! nat j, nat j := patch ps ! nat i]\<rparr>)
      else Inl IndexOutOfRange)"

definition PatchSort_Len :: "('f, 'v) PatchSort \<Rightarrow> int" where
  "PatchSort_Len ps = int (length (patch ps))"

subsection \<open>The sort package of the Go standard library, as far as it is needed\<close>

text \<open>
  \<^verbatim>\<open>sort.IsSorted(data)\<close> is
  \<^verbatim>\<open>n := data.Len(); for i := n - 1; i > 0; i-- { if data.Less(i, i-1) { return false } }; return true\<close>.
  \<open>IsSorted_loop\<close> is the loop at the value \<open>i\<close> of the loop variable.
\<close>

fun IsSorted_loop ::
  "('f, 'v) ValueOps \<Rightarrow> ('f, 'v) PatchSort \<Rightarrow> nat \<Rightarrow> panic + bool" where
  "IsSorted_loop V ps 0 = Inr True"
| "IsSorted_loop V ps (Suc i) =
     (case PatchSort_Less V ps (int (Suc i)) (int (Suc i) - 1) of
        Inl e \<Rightarrow> Inl e
      | Inr b \<Rightarrow> if b then Inr False else IsSorted_loop V ps i)"

definition IsSorted :: "('f, 'v) ValueOps \<Rightarrow> ('f, 'v) PatchSort \<Rightarrow> panic + bool" where
  "IsSorted V ps = IsSorted_loop V ps (nat (PatchSort_Len ps - 1))"

text \<open>
  \<^verbatim>\<open>insertionSort(data, a, b)\<close> is
  \<^verbatim>\<open>for i := a + 1; i < b; i++ { for j := i; j > a && data.Less(j, j-1); j-- { data.Swap(j, j-1) } }\<close>.
  \<open>insertionSort_inner\<close> is the inner loop at the value \<open>j\<close>, \<open>insertionSort_outer\<close> the
  outer loop at the value \<open>i\<close>. It sorts a slice of any length; \<^verbatim>\<open>sort.Sort(data)\<close> runs
  \<^verbatim>\<open>insertionSort(data, 0, data.Len())\<close> and nothing else on a slice of a few elements
  (up to 6 in every release of the package) and other routines on longer ones.
\<close>

fun insertionSort_inner ::
  "('f, 'v) ValueOps \<Rightarrow> ('f, 'v) PatchSort \<Rightarrow> nat \<Rightarrow> nat \<Rightarrow> panic + ('f, 'v) PatchSort" where
  "insertionSort_inner V ps a 0 = Inr ps"
| "insertionSort_inner V ps a (Suc j) =
     (if Suc j > a then
        (case PatchSort_Less V ps (int (Suc j)) (int (Suc j) - 1) of
           Inl e \<Rightarrow> Inl e
         | Inr b \<Rightarrow>
             if b then
               (case PatchSort_Swap ps (int (Suc j)) (int (Suc j) - 1) of
                  Inl e \<Rightarrow> Inl e
                | Inr ps' \<Rightarrow> insertionSort_inner V ps' a j)
             else Inr ps)
      else Inr ps)"

function insertionSort_outer ::
  "('f, 'v) ValueOps \<Rightarrow> ('f, 'v) PatchSort \<Rightarrow> nat \<Rightarrow> nat \<Rightarrow> nat \<Rightarrow> panic + ('f, 'v) PatchSort" where
  "insertionSort_outer V ps a b i =
     (if i < b then
        (case insertionSort_inner V ps a i of
           Inl e \<Rightarrow> Inl e
         | Inr ps' \<Rightarrow> insertionSort_outer V ps' a b (i + 1))
      else Inr ps)"
  by pat_completeness auto
termination
  by (relation "measure (\<lambda>(V, ps, a, b, i). b - i)") auto

definition insertionSort ::
  "('f, 'v) ValueOps \<Rightarrow> ('f, 'v) PatchSort \<Rightarrow> nat \<Rightarrow> nat \<Rightarrow> panic + ('f, 'v) PatchSort" where
  "insertionSort V ps a b = insertionSort_outer V ps a b (a + 1)"

section \<open>Merging two commits (package actions, merge.go)\<close>

subsection \<open>Merge statistics\<close>

text \<open>
  Modelled from the spec: \<^verbatim>\<open>merge.MergeStats\<close> is declared in the package merge, outside
  the sources at hand. The spec describes it as the counts of added, modified and removed
  rows, an Operation tag (Modified, TableRemoved, TableAdded, Unchanged) and a conflict
  count. The composite literal \<^verbatim>\<open>&merge.MergeStats{Operation: merge.TableRemoved}\<close> leaves
  every count at its zero value.
\<close>

datatype TableMergeOp = TableUnchanged | TableAdded | TableRemoved | TableModified

record MergeStats =
  Operation :: TableMergeOp
  Adds :: int
  Modifications :: int
  Deletes :: int
  Conflicts :: int

definition removedStats :: MergeStats where
  "removedStats =
     \<lparr>Operation = TableRemoved, Adds = 0, Modifications = 0, Deletes = 0, Conflicts = 0\<rparr>"

subsection \<open>The collaborators of MergeCommits\<close>

text \<open>
  \<^verbatim>\<open>MergeCommits\<close> calls into the packages doltdb and merge, which are outside the sources
  at hand. Each function it calls is taken as a parameter, collected in a record. The
  types of commits \<open>'cm\<close>, mergers \<open>'mg\<close>, root values \<open>'r\<close>, tables \<open>'t\<close> and Go errors
  \<open>'e\<close> are type parameters. A Go function returning \<^verbatim>\<open>(x, err)\<close> is a function into
  \<open>'e + 'x\<close>: \<open>Inl err\<close> when \<^verbatim>\<open>err != nil\<close>, the only case in which \<^verbatim>\<open>MergeCommits\<close> does
  not look at \<^verbatim>\<open>x\<close>. The context and the database handle \<^verbatim>\<open>ddb\<close> are part of the
  environment. \<^verbatim>\<open>MergeTable\<close> returns two pointers besides the error: the merged table,
  which may be nil, and the statistics.
\<close>

record ('cm, 'mg, 'r, 't, 'e) MergeEnv =
  NewMerger :: "'cm \<Rightarrow> 'cm \<Rightarrow> 'e + 'mg"
  GetRootValue :: "'cm \<Rightarrow> 'e + 'r"
  UnionTableNames :: "'r \<Rightarrow> 'r \<Rightarrow> 'e + string list"
  MergeTable :: "'mg \<Rightarrow> string \<Rightarrow> 'e + ('t option \<times> MergeStats option)"
  PutTable :: "'r \<Rightarrow> string \<Rightarrow> 't \<Rightarrow> 'e + 'r"
  HasTable :: "'r \<Rightarrow> string \<Rightarrow> 'e + bool"
  RemoveTables :: "'r \<Rightarrow> string \<Rightarrow> 'e + 'r"

text \<open>The calls \<^verbatim>\<open>MergeCommits\<close> makes, in the order in which it makes them.\<close>

datatype Call =
    CallNewMerger
  | CallGetRootValue
  | CallUnionTableNames
  | CallMergeTable string
  | CallPutTable string
  | CallHasTable string
  | CallRemoveTables string

text \<open>
  The three results of \<^verbatim>\<open>MergeCommits\<close> as Go returns them: a root value pointer, a map
  and an error, each of which can be nil.
\<close>

type_synonym StatsMap = "string \<rightharpoonup> MergeStats option"

type_synonym ('r, 'e) MergeResult = "'r option \<times> StatsMap option \<times> 'e option"

subsection \<open>MergeCommits\<close>

text \<open>
  The loop over \<^verbatim>\<open>tblNames\<close>. Its state is the current \<^verbatim>\<open>root\<close>, the map \<^verbatim>\<open>tblToStats\<close>
  and the calls made so far. The result is the list of calls together with either a
  panic or the three values returned.
\<close>

fun MergeCommits_loop ::
  "('cm, 'mg, 'r, 't, 'e) MergeEnv \<Rightarrow> 'mg \<Rightarrow> string list \<Rightarrow> 'r \<Rightarrow> StatsMap \<Rightarrow> Call list
     \<Rightarrow> Call list \<times> (panic + ('r, 'e) MergeResult)" where
  "MergeCommits_loop env merger [] root tblToStats calls =
     (calls, Inr (Some root, Some tblToStats, None))"
| "MergeCommits_loop env merger (tblName # rest) root tblToStats calls =
     (case MergeTable env merger tblName of
        Inl err \<Rightarrow> (calls @ [CallMergeTable tblName], Inr (None, None, Some err))
      | Inr (mergedTable, stats) \<Rightarrow>
          (case mergedTable of
             Some tbl \<Rightarrow>
               (case PutTable env root tblName tbl of
                  Inl err \<Rightarrow>
                    (calls @ [CallMergeTable tblName, CallPutTable tblName],
                     Inr (None, None, Some err))
                | Inr root' \<Rightarrow>
                    MergeCommits_loop env merger rest root' (tblToStats(tblName \<mapsto> stats))
                      (calls @ [CallMergeTable tblName, CallPutTable tblName]))
           | None \<Rightarrow>
               (case HasTable env root tblName of
                  Inl err \<Rightarrow>
                    (calls @ [CallMergeTable tblName, CallHasTable tblName],
                     Inr (None, None, Some err))
                | Inr has \<Rightarrow>
                    if has then
                      (case RemoveTables env root tblName of
                         Inl err \<Rightarrow>
                           (calls @ [CallMergeTable tblName, CallHasTable tblName,
                                     CallRemoveTables tblName],
                            Inr (None, None, Some err))
                       | Inr root' \<Rightarrow>
                           MergeCommits_loop env merger rest root'
                             (tblToStats(tblName \<mapsto> Some removedStats))
                             (calls @ [CallMergeTable tblName, CallHasTable tblName,
                                       CallRemoveTables tblName]))
                    else
                      (calls @ [CallMergeTable tblName, CallHasTable tblName],
                       Inl QuestionMark))))"

definition MergeCommits_run ::
  "('cm, 'mg, 'r, 't, 'e) MergeEnv \<Rightarrow> 'cm \<Rightarrow> 'cm
     \<Rightarrow> Call list \<times> (panic + ('r, 'e) MergeResult)" where
  "MergeCommits_run env cm1 cm2 =
     (case NewMerger env cm1 cm2 of
        Inl err \<Rightarrow> ([CallNewMerger], Inr (None, None, Some err))
      | Inr merger \<Rightarrow>
          (case GetRootValue env cm1 of
             Inl err \<Rightarrow> ([CallNewMerger, CallGetRootValue], Inr (None, None, Some err))
           | Inr root \<Rightarrow>
               (case GetRootValue env cm2 of
                  Inl err \<Rightarrow>
                    ([CallNewMerger, CallGetRootValue, CallGetRootValue],
                     Inr (None, None, Some err))
                | Inr rv \<Rightarrow>
                    (case UnionTableNames env root rv of
                       Inl err \<Rightarrow>
                         ([CallNewMerger, CallGetRootValue, CallGetRootValue,
                           CallUnionTableNames],
                          Inr (None, None, Some err))
                     | Inr tblNames \<Rightarrow>
                         MergeCommits_loop env merger tblNames root Map.empty
                           [CallNewMerger, CallGetRootValue, CallGetRootValue,
                            CallUnionTableNames]))))"

text \<open>What \<^verbatim>\<open>MergeCommits\<close> returns, and the calls it makes.\<close>

definition MergeCommits ::
  "('cm, 'mg, 'r, 't, 'e) MergeEnv \<Rightarrow> 'cm \<Rightarrow> 'cm \<Rightarrow> panic + ('r, 'e) MergeResult" where
  "MergeCommits env cm1 cm2 = snd (MergeCommits_run env cm1 cm2)"

definition MergeCommits_calls ::
  "('cm, 'mg, 'r, 't, 'e) MergeEnv \<Rightarrow> 'cm \<Rightarrow> 'cm \<Rightarrow> Call list" where
  "MergeCommits_calls env cm1 cm2 = fst (MergeCommits_run env cm1 cm2)"

section \<open>Assumptions on the collaborators, and example instances\<close>

subsection \<open>The order of values\<close>

text \<open>
  The spec requires of the value graph that values support equality and an ordering
  comparison under a given format. \<open>valueOrder V fmt\<close> states this of the two
  parameters: under the format \<open>fmt\<close>, \<open>Value_Equals\<close> is an equivalence and
  \<open>Value_Less\<close> is a strict total order on its classes.
\<close>

definition valueOrder :: "('f, 'v) ValueOps \<Rightarrow> 'f \<Rightarrow> bool" where
  "valueOrder V fmt \<longleftrightarrow>
     (\<forall>a. Value_Equals V fmt a a) \<and>
     (\<forall>a b. Value_Equals V fmt a b \<longrightarrow> Value_Equals V fmt b a) \<and>
     (\<forall>a b c. Value_Equals V fmt a b \<longrightarrow> Value_Equals V fmt b c \<longrightarrow> Value_Equals V fmt a c) \<and>
     (\<forall>a b. Value_Less V fmt a b \<longrightarrow> \<not> Value_Equals V fmt a b \<and> \<not> Value_Less V fmt b a) \<and>
     (\<forall>a b c. Value_Less V fmt a b \<longrightarrow> Value_Less V fmt b c \<longrightarrow> Value_Less V fmt a c) \<and>
     (\<forall>a b. Value_Equals V fmt a b \<or> Value_Less V fmt a b \<or> Value_Less V fmt b a) \<and>
     (\<forall>a b c. Value_Equals V fmt a b \<longrightarrow> Value_Less V fmt b c \<longrightarrow> Value_Less V fmt a c) \<and>
     (\<forall>a b c. Value_Less V fmt a b \<longrightarrow> Value_Equals V fmt b c \<longrightarrow> Value_Less V fmt a c)"

text \<open>An instance for concrete inputs: natural numbers as values, a single format.\<close>

definition natOps :: "(unit, nat) ValueOps" where
  "natOps = \<lparr>Value_Equals = (\<lambda>fmt a b. a = b), Value_Less = (\<lambda>fmt a b. a < b)\<rparr>"

text \<open>A patch of three differences at one path, for concrete inputs.\<close>

definition samePathPatch :: "(unit, nat) PatchSort" where
  "samePathPatch =
     \<lparr>patch =
        [\<lparr>Path = [FieldPath ''t''], ChangeType = DiffChangeAdded,
           OldValue = None, NewValue = Some 1\<rparr>,
         \<lparr>Path = [FieldPath ''t''], ChangeType = DiffChangeModified,
           OldValue = Some 2, NewValue = Some 3\<rparr>,
         \<lparr>Path = [FieldPath ''t''], ChangeType = DiffChangeRemoved,
           OldValue = Some 4, NewValue = None\<rparr>],
      format = ()\<rparr>"

text \<open>
  Two patches holding the same two differences in opposite orders. The differences have
  the same path and change type and differ in NewValue only.
\<close>

definition tiePatch1 :: "(unit, nat) PatchSort" where
  "tiePatch1 =
     \<lparr>patch =
        [\<lparr>Path = [FieldPath ''t''], ChangeType = DiffChangeModified,
           OldValue = Some 1, NewValue = Some 2\<rparr>,
         \<lparr>Path = [FieldPath ''t''], ChangeType = DiffChangeModified,
           OldValue = Some 1, NewValue = Some 3\<rparr>],
      format = ()\<rparr>"

definition tiePatch2 :: "(unit, nat) PatchSort" where
  "tiePatch2 =
     \<lparr>patch =
        [\<lparr>Path = [FieldPath ''t''], ChangeType = DiffChangeModified,
           OldValue = Some 1, NewValue = Some 3\<rparr>,
         \<lparr>Path = [FieldPath ''t''], ChangeType = DiffChangeModified,
           OldValue = Some 1, NewValue = Some 2\<rparr>],
      format = ()\<rparr>"

text \<open>
  Three differences of which each is less than the next, and two patches holding them:
  one in ascending order, one in another order.
\<close>

definition diffRemoved :: "nat Difference" where
  "diffRemoved = \<lparr>Path = [FieldPath ''t''], ChangeType = DiffChangeRemoved,
     OldValue = Some 1, NewValue = None\<rparr>"

definition diffAdded :: "nat Difference" where
  "diffAdded = \<lparr>Path = [FieldPath ''t''], ChangeType = DiffChangeAdded,
     OldValue = None, NewValue = Some 2\<rparr>"

definition diffNested :: "nat Difference" where
  "diffNested = \<lparr>Path = [FieldPath ''t'', IndexPath 0 False], ChangeType = DiffChangeModified,
     OldValue = Some 1, NewValue = Some 3\<rparr>"

definition ascendingPatch :: "(unit, nat) PatchSort" where
  "ascendingPatch = \<lparr>patch = [diffRemoved, diffAdded, diffNested], format = ()\<rparr>"

definition shuffledPatch :: "(unit, nat) PatchSort" where
  "shuffledPatch = \<lparr>patch = [diffNested, diffRemoved, diffAdded], format = ()\<rparr>"

subsection \<open>Sortedness of a prefix\<close>

text \<open>
  \<open>adjSorted V fmt xs n\<close>: among the first \<open>n\<close> differences of \<open>xs\<close> none is less than the one
  before it. This is what \<^verbatim>\<open>sort.IsSorted\<close> checks of the whole slice, and what the outer
  loop of \<^verbatim>\<open>insertionSort\<close> maintains of the part it has passed.
\<close>

definition adjSorted ::
  "('f, 'v) ValueOps \<Rightarrow> 'f \<Rightarrow> 'v Difference list \<Rightarrow> nat \<Rightarrow> bool" where
  "adjSorted V fmt xs n \<longleftrightarrow>
     (\<forall>k. Suc k < n \<longrightarrow> Difference_Less V fmt (xs ! Suc k) (xs ! k) = Inr False)"

subsection \<open>Root values as mappings from table names\<close>

text \<open>
  The spec describes a RootValue as an immutable mapping from table name to table value,
  of which \<^verbatim>\<open>PutTable\<close> and \<^verbatim>\<open>RemoveTables\<close> return a new one. \<open>rootContract env\<close> states
  what of this \<^verbatim>\<open>HasTable\<close> can observe: a successful \<^verbatim>\<open>PutTable\<close> or \<^verbatim>\<open>RemoveTables\<close>
  leaves the presence of every other table as it was, and after a successful
  \<^verbatim>\<open>RemoveTables\<close> the table removed is absent.
\<close>

definition rootContract :: "('cm, 'mg, 'r, 't, 'e) MergeEnv \<Rightarrow> bool" where
  "rootContract env \<longleftrightarrow>
     (\<forall>r n t r'. PutTable env r n t = Inr r' \<longrightarrow>
        (\<forall>m. m \<noteq> n \<longrightarrow> HasTable env r' m = HasTable env r m)) \<and>
     (\<forall>r n r'. RemoveTables env r n = Inr r' \<longrightarrow>
        HasTable env r' n = Inr False \<and>
        (\<forall>m. m \<noteq> n \<longrightarrow> HasTable env r' m = HasTable env r m))"

text \<open>
  \<open>collaboratorsSucceed env merger tblNames root\<close> describes a run in which no collaborator
  returns an error and the loop does not panic: for every table name of the union
  \<^verbatim>\<open>MergeTable\<close> returns either a merged table or no table for a table that \<open>root\<close> has, and
  \<^verbatim>\<open>PutTable\<close> and \<^verbatim>\<open>RemoveTables\<close> succeed.
\<close>

definition collaboratorsSucceed ::
  "('cm, 'mg, 'r, 't, 'e) MergeEnv \<Rightarrow> 'mg \<Rightarrow> string list \<Rightarrow> 'r \<Rightarrow> bool" where
  "collaboratorsSucceed env merger tblNames root \<longleftrightarrow>
     (\<forall>n\<in>set tblNames.
        (\<exists>tbl st. MergeTable env merger n = Inr (Some tbl, st)) \<or>
        (\<exists>st. MergeTable env merger n = Inr (None, st)) \<and> HasTable env root n = Inr True) \<and>
     (\<forall>r n tbl. \<exists>r'. PutTable env r n tbl = Inr r') \<and>
     (\<forall>r n. \<exists>r'. RemoveTables env r n = Inr r')"

subsection \<open>An example environment\<close>

text \<open>
  Root values are association lists from table names to tables, tables and commits are
  numbers, errors are strings. Commit 1 has the tables a and b, commit 2 has the table a
  only. The table a merges into a new table; for the table b \<^verbatim>\<open>MergeTable\<close> returns no
  table, or fails when \<open>bFails\<close> is set.
\<close>

type_synonym exampleRoot = "(string \<times> nat) list"

definition exampleStats :: MergeStats where
  "exampleStats =
     \<lparr>Operation = TableModified, Adds = 0, Modifications = 1, Deletes = 0, Conflicts = 0\<rparr>"

definition exampleEnv :: "bool \<Rightarrow> (nat, unit, exampleRoot, nat, string) MergeEnv" where
  "exampleEnv bFails =
     \<lparr>NewMerger = (\<lambda>cm1 cm2. Inr ()),
      GetRootValue = (\<lambda>cm. if cm = 1 then Inr [(''a'', 1), (''b'', 2)] else Inr [(''a'', 10)]),
      UnionTableNames = (\<lambda>r rv.
        Inr (map fst r @ filter (\<lambda>n. n \<notin> set (map fst r)) (map fst rv))),
      MergeTable = (\<lambda>merger tblName.
        if tblName = ''a'' then Inr (Some 11, Some exampleStats)
        else if bFails then Inl ''cannot merge''
        else Inr (None, None)),
      PutTable = (\<lambda>r tblName tbl. Inr ((tblName, tbl) # filter (\<lambda>p. fst p \<noteq> tblName) r)),
      HasTable = (\<lambda>r tblName. Inr (tblName \<in> set (map fst r))),
      RemoveTables = (\<lambda>r tblName. Inr (filter (\<lambda>p. fst p \<noteq> tblName) r))\<rparr>"

section \<open>Properties of the comparison of path parts and paths\<close>

declare pathIsLess_loop.simps [simp del]

declare insertionSort_outer.simps [simp del]

lemma bytes_Compare_range: "bytes_Compare a b = - 1 \<or> bytes_Compare a b = 0 \<or> bytes_Compare a b = 1"
  by (induction a b rule: bytes_Compare.induct) auto

lemma bytes_Compare_eq_iff: "bytes_Compare a b = 0 \<longleftrightarrow> a = b"
  by (induction a b rule: bytes_Compare.induct) auto

lemma bytes_Compare_sym: "bytes_Compare b a = - bytes_Compare a b"
  by (induction a b rule: bytes_Compare.induct) auto

lemma bytes_Compare_trans:
  "bytes_Compare a b = - 1 \<Longrightarrow> bytes_Compare b c = - 1 \<Longrightarrow> bytes_Compare a c = - 1"
proof (induction a b arbitrary: c rule: bytes_Compare.induct)
  case 1
  then show ?case by simp
next
  case (2 y ys)
  then show ?case by (cases c) auto
next
  case (3 x xs)
  then show ?case by simp
next
  case (4 x xs y ys)
  then show ?case by (cases c) (auto split: if_splits)
qed

lemma pathIsLess_loop_shift:
  "pathIsLess_loop V f (a # p1) (b # p2) (Suc i) = pathIsLess_loop V f p1 p2 i"
proof (induction V f p1 p2 i rule: pathIsLess_loop.induct)
  case (1 V f p1 p2 i)
  show ?case
    apply (subst pathIsLess_loop.simps)
    apply (subst (2) pathIsLess_loop.simps)
    using 1 by (auto split: sum.splits)
qed

lemma pathIsLess_Nil: "pathIsLess V f [] p2 = Inr (p2 \<noteq> [])"
  by (simp add: pathIsLess_def pathIsLess_loop.simps)

lemma pathIsLess_Cons_Nil: "pathIsLess V f (a # p1) [] = Inr False"
  by (simp add: pathIsLess_def pathIsLess_loop.simps)

lemma pathIsLess_Cons_Cons:
  "pathIsLess V f (a # p1) (b # p2) =
     (case pathPartCompare V f a b of
        Inl e \<Rightarrow> Inl e
      | Inr c \<Rightarrow> if c = - 1 then Inr True else if c = 1 then Inr False
                 else pathIsLess V f p1 p2)"
  unfolding pathIsLess_def
  by (subst pathIsLess_loop.simps) (simp add: pathIsLess_loop_shift split: sum.splits)

lemma valueOrder_refl: "valueOrder V fmt \<Longrightarrow> Value_Equals V fmt a a"
  by (simp add: valueOrder_def)

lemma valueOrder_sym:
  "valueOrder V fmt \<Longrightarrow> Value_Equals V fmt a b
     \<Longrightarrow> Value_Equals V fmt b a"
  unfolding valueOrder_def by blast

lemma valueOrder_trans:
  "valueOrder V fmt \<Longrightarrow> Value_Equals V fmt a b \<Longrightarrow> Value_Equals V fmt b c
     \<Longrightarrow> Value_Equals V fmt a c"
  unfolding valueOrder_def by blast

lemma valueOrder_less_not_eq:
  "valueOrder V fmt \<Longrightarrow> Value_Less V fmt a b
     \<Longrightarrow> \<not> Value_Equals V fmt a b"
  unfolding valueOrder_def by blast

lemma valueOrder_less_asym:
  "valueOrder V fmt \<Longrightarrow> Value_Less V fmt a b
     \<Longrightarrow> \<not> Value_Less V fmt b a"
  unfolding valueOrder_def by blast

lemma valueOrder_less_trans:
  "valueOrder V fmt \<Longrightarrow> Value_Less V fmt a b \<Longrightarrow> Value_Less V fmt b c
     \<Longrightarrow> Value_Less V fmt a c"
  unfolding valueOrder_def by blast

lemma valueOrder_total:
  "valueOrder V fmt \<Longrightarrow> \<not> Value_Equals V fmt a b \<Longrightarrow> \<not> Value_Less V fmt a b
     \<Longrightarrow> Value_Less V fmt b a"
  unfolding valueOrder_def by blast

lemma valueOrder_eq_less:
  "valueOrder V fmt \<Longrightarrow> Value_Equals V fmt a b \<Longrightarrow> Value_Less V fmt b c
     \<Longrightarrow> Value_Less V fmt a c"
  unfolding valueOrder_def by blast

lemma valueOrder_less_eq:
  "valueOrder V fmt \<Longrightarrow> Value_Less V fmt a b \<Longrightarrow> Value_Equals V fmt b c
     \<Longrightarrow> Value_Less V fmt a c"
  unfolding valueOrder_def by blast

lemma hashIndexPathCompare_Hash:
  "hashIndexPathCompare h k (HashIndexPath h' k') =
     (if bytes_Compare h h' = - 1 then Inr (- 1)
      else if h = h' then (if k = k' then Inr 0 else if k then Inr (- 1) else Inr 1)
      else Inr 1)"
  using bytes_Compare_range [of h h'] bytes_Compare_eq_iff [of h h']
  by (auto simp: Let_def)

lemma pathPartCompare_range:
  "isKnownPathPart a \<Longrightarrow> isKnownPathPart b \<Longrightarrow>
     pathPartCompare V f a b = Inr (- 1) \<or> pathPartCompare V f a b = Inr 0
       \<or> pathPartCompare V f a b = Inr 1"
  by (cases a; cases b) (simp_all add: hashIndexPathCompare_Hash del: hashIndexPathCompare.simps(3))

lemma pathPartCompare_Inr_range:
  "pathPartCompare V f a b = Inr c \<Longrightarrow> (c = - 1 \<or> c = 0 \<or> c = 1) \<and> isKnownPathPart a \<and> isKnownPathPart b"
  by (cases a; cases b) (auto simp add: hashIndexPathCompare_Hash simp del: hashIndexPathCompare.simps(3) split: if_splits)

lemma pathPartCompare_neg:
  assumes "valueOrder V f" "pathPartCompare V f a b = Inr c"
  shows "pathPartCompare V f b a = Inr (- c)"
proof (cases a)
  case (FieldPath n)
  with assms show ?thesis by (cases b) (auto split: if_splits)
next
  case (IndexPath i k)
  with assms show ?thesis
    by (cases b) (auto split: if_splits dest: valueOrder_sym valueOrder_less_asym valueOrder_less_not_eq valueOrder_total)
next
  case (HashIndexPath h k)
  show ?thesis
  proof (cases b)
    case (HashIndexPath h' k')
    have "bytes_Compare h' h = - bytes_Compare h h'"
      by (rule bytes_Compare_sym)
    moreover have "bytes_Compare h h' = - 1 \<or> bytes_Compare h h' = 0 \<or> bytes_Compare h h' = 1"
      by (rule bytes_Compare_range)
    moreover have "bytes_Compare h h' = 0 \<longleftrightarrow> h = h'"
      by (rule bytes_Compare_eq_iff)
    ultimately show ?thesis
      using assms(2) \<open>a = HashIndexPath h k\<close> HashIndexPath
      by (auto simp add: hashIndexPathCompare_Hash simp del: hashIndexPathCompare.simps(3)
          split: if_splits)
  qed (use assms(2) \<open>a = HashIndexPath h k\<close> in auto)
next
  case OtherPathPart
  with assms show ?thesis by simp
qed

lemma indexPathCompare_Index_less:
  "valueOrder V f \<Longrightarrow>
   indexPathCompare V f i k (IndexPath i' k') = Inr (- 1) \<longleftrightarrow>
     Value_Less V f i i' \<or> (Value_Equals V f i i' \<and> k \<and> \<not> k')"
  by (auto dest: valueOrder_less_not_eq)

lemma indexPathCompare_Index_eq:
  "indexPathCompare V f i k (IndexPath i' k') = Inr 0 \<longleftrightarrow> Value_Equals V f i i' \<and> k = k'"
  by auto

lemma hashIndexPathCompare_Hash_less:
  "hashIndexPathCompare h k (HashIndexPath h' k') = Inr (- 1) \<longleftrightarrow>
     bytes_Compare h h' = - 1 \<or> (h = h' \<and> k \<and> \<not> k')"
  using bytes_Compare_eq_iff [of h h']
  by (auto simp add: hashIndexPathCompare_Hash simp del: hashIndexPathCompare.simps(3))

lemma hashIndexPathCompare_Hash_eq:
  "hashIndexPathCompare h k (HashIndexPath h' k') = Inr 0 \<longleftrightarrow> h = h' \<and> k = k'"
  using bytes_Compare_eq_iff [of h h']
  by (auto simp add: hashIndexPathCompare_Hash simp del: hashIndexPathCompare.simps(3))

lemma fieldPathCompare_Field_less:
  "fieldPathCompare n (FieldPath n') = Inr (- 1) \<longleftrightarrow> n < n'"
  by auto

lemma fieldPathCompare_Field_eq:
  "fieldPathCompare n (FieldPath n') = Inr 0 \<longleftrightarrow> n = n'"
  by auto

lemma pathPartCompare_less_trans:
  assumes vo: "valueOrder V f"
    and ab: "pathPartCompare V f a b = Inr (- 1)"
    and bc: "pathPartCompare V f b c = Inr (- 1)"
  shows "pathPartCompare V f a c = Inr (- 1)"
proof (cases a)
  case a: (FieldPath n)
  show ?thesis
  proof (cases b)
    case b: (FieldPath n')
    show ?thesis using ab bc unfolding a b
      by (cases c) (auto split: if_splits)
  next
    case b: (IndexPath i' k')
    show ?thesis using ab bc unfolding a b
      by (cases c) (auto split: if_splits)
  next
    case b: (HashIndexPath h' k')
    show ?thesis using ab bc unfolding a b
      by (cases c) (auto simp add: hashIndexPathCompare_Hash simp del: hashIndexPathCompare.simps(3) split: if_splits)
  next
    case OtherPathPart
    then show ?thesis using ab a by simp
  qed
next
  case a: (IndexPath i k)
  show ?thesis
  proof (cases b)
    case b: (FieldPath n')
    show ?thesis using ab unfolding a b by simp
  next
    case b: (IndexPath i' k')
    show ?thesis
    proof (cases c)
      case c: (IndexPath i'' k'')
      from ab bc have "Value_Less V f i i' \<or> (Value_Equals V f i i' \<and> k \<and> \<not> k')"
        and "Value_Less V f i' i'' \<or> (Value_Equals V f i' i'' \<and> k' \<and> \<not> k'')"
        unfolding a b c by (simp_all only: pathPartCompare.simps indexPathCompare_Index_less [OF vo])
      then have "Value_Less V f i i'' \<or> (Value_Equals V f i i'' \<and> k \<and> \<not> k'')"
        using valueOrder_less_trans [OF vo] valueOrder_eq_less [OF vo] valueOrder_less_eq [OF vo]
        by blast
      then show ?thesis unfolding a c
        by (simp only: pathPartCompare.simps indexPathCompare_Index_less [OF vo])
    qed (use ab bc in \<open>auto simp: a b split: if_splits\<close>)
  next
    case b: (HashIndexPath h' k')
    show ?thesis using ab bc unfolding a b
      by (cases c) (auto simp add: hashIndexPathCompare_Hash simp del: hashIndexPathCompare.simps(3) split: if_splits)
  next
    case OtherPathPart
    then show ?thesis using ab a by simp
  qed
next
  case a: (HashIndexPath h k)
  show ?thesis
  proof (cases b)
    case b: (HashIndexPath h' k')
    show ?thesis
    proof (cases c)
      case c: (HashIndexPath h'' k'')
      from ab bc have "bytes_Compare h h' = - 1 \<or> (h = h' \<and> k \<and> \<not> k')"
        and "bytes_Compare h' h'' = - 1 \<or> (h' = h'' \<and> k' \<and> \<not> k'')"
        unfolding a b c by (simp_all only: pathPartCompare.simps hashIndexPathCompare_Hash_less)
      then have "bytes_Compare h h'' = - 1 \<or> (h = h'' \<and> k \<and> \<not> k'')"
        using bytes_Compare_trans by blast
      then show ?thesis unfolding a c
        by (simp only: pathPartCompare.simps hashIndexPathCompare_Hash_less)
    qed (use ab bc in \<open>auto simp add: a b hashIndexPathCompare_Hash simp del: hashIndexPathCompare.simps(3) split: if_splits\<close>)
  qed (use ab in \<open>auto simp: a\<close>)
next
  case OtherPathPart
  then show ?thesis using ab by simp
qed

lemma pathPartCompare_eq_cases:
  "pathPartCompare V f a b = Inr 0 \<longleftrightarrow>
     (\<exists>n. a = FieldPath n \<and> b = FieldPath n) \<or>
     (\<exists>i k i'. a = IndexPath i k \<and> b = IndexPath i' k \<and> Value_Equals V f i i') \<or>
     (\<exists>h k. a = HashIndexPath h k \<and> b = HashIndexPath h k)"
  by (cases a; cases b)
    (simp_all only: pathPartCompare.simps fieldPathCompare.simps(2-) indexPathCompare.simps(1,3,4)
      hashIndexPathCompare.simps(1,2,4) fieldPathCompare_Field_eq indexPathCompare_Index_eq
      hashIndexPathCompare_Hash_eq, auto)

lemma pathPartCompare_eq_trans:
  assumes vo: "valueOrder V f"
    and ab: "pathPartCompare V f a b = Inr 0"
    and bc: "pathPartCompare V f b c = Inr 0"
  shows "pathPartCompare V f a c = Inr 0"
proof -
  from ab consider
    (field) n where "a = FieldPath n" "b = FieldPath n"
    | (index) i k i' where "a = IndexPath i k" "b = IndexPath i' k" "Value_Equals V f i i'"
    | (hash) h k where "a = HashIndexPath h k" "b = HashIndexPath h k"
    unfolding pathPartCompare_eq_cases by blast
  then show ?thesis
  proof cases
    case field
    with bc show ?thesis by simp
  next
    case index
    show ?thesis
    proof (cases c)
      case c: (IndexPath i'' k'')
      from bc have "Value_Equals V f i' i'' \<and> k = k''"
        unfolding index c by (simp only: pathPartCompare.simps indexPathCompare_Index_eq)
      then have "Value_Equals V f i i'' \<and> k = k''"
        using index(3) valueOrder_trans [OF vo] by blast
      then show ?thesis unfolding index c
        by (simp only: pathPartCompare.simps indexPathCompare_Index_eq)
    qed (use bc index in \<open>auto split: if_splits\<close>)
  next
    case hash
    with bc show ?thesis by simp
  qed
qed

lemma pathPartCompare_eq_less:
  assumes vo: "valueOrder V f"
    and ab: "pathPartCompare V f a b = Inr 0"
    and bc: "pathPartCompare V f b c = Inr (- 1)"
  shows "pathPartCompare V f a c = Inr (- 1)"
proof -
  from ab consider
    (field) n where "a = FieldPath n" "b = FieldPath n"
    | (index) i k i' where "a = IndexPath i k" "b = IndexPath i' k" "Value_Equals V f i i'"
    | (hash) h k where "a = HashIndexPath h k" "b = HashIndexPath h k"
    unfolding pathPartCompare_eq_cases by blast
  then show ?thesis
  proof cases
    case field
    with bc show ?thesis by simp
  next
    case index
    show ?thesis
    proof (cases c)
      case c: (IndexPath i'' k'')
      from bc have "Value_Less V f i' i'' \<or> (Value_Equals V f i' i'' \<and> k \<and> \<not> k'')"
        unfolding index c by (simp only: pathPartCompare.simps indexPathCompare_Index_less [OF vo])
      then have "Value_Less V f i i'' \<or> (Value_Equals V f i i'' \<and> k \<and> \<not> k'')"
        using index(3) valueOrder_eq_less [OF vo] valueOrder_trans [OF vo] by blast
      then show ?thesis unfolding index c
        by (simp only: pathPartCompare.simps indexPathCompare_Index_less [OF vo])
    qed (use bc index in \<open>auto split: if_splits\<close>)
  next
    case hash
    with bc show ?thesis by simp
  qed
qed

lemma pathPartCompare_less_eq:
  assumes vo: "valueOrder V f"
    and ab: "pathPartCompare V f a b = Inr (- 1)"
    and bc: "pathPartCompare V f b c = Inr 0"
  shows "pathPartCompare V f a c = Inr (- 1)"
proof -
  from bc consider
    (field) n where "b = FieldPath n" "c = FieldPath n"
    | (index) i k i' where "b = IndexPath i k" "c = IndexPath i' k" "Value_Equals V f i i'"
    | (hash) h k where "b = HashIndexPath h k" "c = HashIndexPath h k"
    unfolding pathPartCompare_eq_cases by blast
  then show ?thesis
  proof cases
    case field
    with ab show ?thesis by simp
  next
    case index
    show ?thesis
    proof (cases a)
      case a: (IndexPath i0 k0)
      from ab have "Value_Less V f i0 i \<or> (Value_Equals V f i0 i \<and> k0 \<and> \<not> k)"
        unfolding index a by (simp only: pathPartCompare.simps indexPathCompare_Index_less [OF vo])
      then have "Value_Less V f i0 i' \<or> (Value_Equals V f i0 i' \<and> k0 \<and> \<not> k)"
        using index(3) valueOrder_less_eq [OF vo] valueOrder_trans [OF vo] by blast
      then show ?thesis unfolding index a
        by (simp only: pathPartCompare.simps indexPathCompare_Index_less [OF vo])
    qed (use ab index in \<open>auto split: if_splits\<close>)
  next
    case hash
    with ab show ?thesis by simp
  qed
qed

lemma pathIsLess_Cons_Cons_True:
  "pathIsLess V f (a # p) (b # q) = Inr True \<longleftrightarrow>
     pathPartCompare V f a b = Inr (- 1) \<or>
     (pathPartCompare V f a b = Inr 0 \<and> pathIsLess V f p q = Inr True)"
proof (cases "pathPartCompare V f a b")
  case (Inl e)
  then show ?thesis by (simp add: pathIsLess_Cons_Cons)
next
  case (Inr c)
  with pathPartCompare_Inr_range [OF Inr] show ?thesis
    by (auto simp add: pathIsLess_Cons_Cons)
qed

lemma pathIsLess_trans:
  assumes vo: "valueOrder V f"
  shows "pathIsLess V f p q = Inr True \<Longrightarrow> pathIsLess V f q r = Inr True
    \<Longrightarrow> pathIsLess V f p r = Inr True"
proof (induction p arbitrary: q r)
  case Nil
  then show ?case
    by (cases q; cases r) (simp_all add: pathIsLess_Nil pathIsLess_Cons_Nil)
next
  case (Cons a p)
  from Cons.prems obtain b q' where q: "q = b # q'"
    by (cases q) (simp_all add: pathIsLess_Cons_Nil)
  from Cons.prems q obtain c r' where r: "r = c # r'"
    by (cases r) (simp_all add: pathIsLess_Cons_Nil)
  from Cons.prems have
    ab: "pathPartCompare V f a b = Inr (- 1) \<or>
         (pathPartCompare V f a b = Inr 0 \<and> pathIsLess V f p q' = Inr True)"
    and bc: "pathPartCompare V f b c = Inr (- 1) \<or>
         (pathPartCompare V f b c = Inr 0 \<and> pathIsLess V f q' r' = Inr True)"
    unfolding q r pathIsLess_Cons_Cons_True by simp_all
  then consider
      (ll) "pathPartCompare V f a b = Inr (- 1)" "pathPartCompare V f b c = Inr (- 1)"
    | (le) "pathPartCompare V f a b = Inr (- 1)" "pathPartCompare V f b c = Inr 0"
    | (el) "pathPartCompare V f a b = Inr 0" "pathPartCompare V f b c = Inr (- 1)"
    | (ee) "pathPartCompare V f a b = Inr 0" "pathIsLess V f p q' = Inr True"
           "pathPartCompare V f b c = Inr 0" "pathIsLess V f q' r' = Inr True"
    by blast
  then have "pathPartCompare V f a c = Inr (- 1) \<or>
         (pathPartCompare V f a c = Inr 0 \<and> pathIsLess V f p r' = Inr True)"
  proof cases
    case ll
    then show ?thesis by (simp add: pathPartCompare_less_trans [OF vo])
  next
    case le
    then show ?thesis by (simp add: pathPartCompare_less_eq [OF vo])
  next
    case el
    then show ?thesis by (simp add: pathPartCompare_eq_less [OF vo])
  next
    case ee
    then show ?thesis
      using pathPartCompare_eq_trans [OF vo ee(1) ee(3)] Cons.IH [OF ee(2) ee(4)] by simp
  qed
  then show ?case unfolding r pathIsLess_Cons_Cons_True .
qed

lemma pathIsLess_asym:
  assumes vo: "valueOrder V f"
  shows "pathIsLess V f p q = Inr True \<Longrightarrow> pathIsLess V f q p = Inr False"
proof (induction p arbitrary: q)
  case Nil
  then show ?case by (cases q) (simp_all add: pathIsLess_Nil pathIsLess_Cons_Nil)
next
  case (Cons a p)
  from Cons.prems obtain b q' where q: "q = b # q'"
    by (cases q) (simp_all add: pathIsLess_Cons_Nil)
  from Cons.prems have
    ab: "pathPartCompare V f a b = Inr (- 1) \<or>
         (pathPartCompare V f a b = Inr 0 \<and> pathIsLess V f p q' = Inr True)"
    unfolding q pathIsLess_Cons_Cons_True by simp
  then show ?case
  proof
    assume "pathPartCompare V f a b = Inr (- 1)"
    from pathPartCompare_neg [OF vo this] show ?thesis
      by (simp add: q pathIsLess_Cons_Cons)
  next
    assume h: "pathPartCompare V f a b = Inr 0 \<and> pathIsLess V f p q' = Inr True"
    then have "pathPartCompare V f b a = Inr 0"
      using pathPartCompare_neg [OF vo, of a b 0] by simp
    with h Cons.IH show ?thesis
      by (simp add: q pathIsLess_Cons_Cons)
  qed
qed

lemma pathIsLess_prefix:
  "length p1 < length p2 \<Longrightarrow>
   (\<forall>i<length p1. pathPartCompare V fmt (p1 ! i) (p2 ! i) = Inr 0) \<Longrightarrow>
   pathIsLess V fmt p1 p2 = Inr True"
proof (induction p1 arbitrary: p2)
  case Nil
  then show ?case by (simp add: pathIsLess_Nil)
next
  case (Cons a p1)
  then obtain b p2' where p2: "p2 = b # p2'" by (cases p2) auto
  from Cons.prems(2) have "pathPartCompare V fmt a b = Inr 0"
    unfolding p2 by fastforce
  moreover from Cons.prems(2) have "\<forall>i<length p1. pathPartCompare V fmt (p1 ! i) (p2' ! i) = Inr 0"
    unfolding p2 by fastforce
  ultimately show ?case
    using Cons.IH [of p2'] Cons.prems(1) by (simp add: p2 pathIsLess_Cons_Cons)
qed

lemma pathIsLess_prefix_rev:
  assumes vo: "valueOrder V fmt"
  shows "length p1 < length p2 \<Longrightarrow>
   (\<forall>i<length p1. pathPartCompare V fmt (p1 ! i) (p2 ! i) = Inr 0) \<Longrightarrow>
   pathIsLess V fmt p2 p1 = Inr False"
  using pathIsLess_asym [OF vo pathIsLess_prefix] by blast

lemma pathIsLess_first_difference:
  "k < length p1 \<Longrightarrow> k < length p2 \<Longrightarrow>
   (\<forall>i<k. pathPartCompare V fmt (p1 ! i) (p2 ! i) = Inr 0) \<Longrightarrow>
   pathPartCompare V fmt (p1 ! k) (p2 ! k) = Inr c \<Longrightarrow> c \<noteq> 0 \<Longrightarrow>
   pathIsLess V fmt p1 p2 = Inr (c = - 1)"
proof (induction k arbitrary: p1 p2)
  case 0
  then obtain a p1' b p2' where p: "p1 = a # p1'" "p2 = b # p2'"
    by (cases p1; cases p2) auto
  with 0 pathPartCompare_Inr_range [of V fmt a b c] show ?case
    by (auto simp add: pathIsLess_Cons_Cons)
next
  case (Suc k)
  then obtain a p1' b p2' where p: "p1 = a # p1'" "p2 = b # p2'"
    by (cases p1; cases p2) auto
  from Suc.prems(3) have "pathPartCompare V fmt a b = Inr 0"
    unfolding p by fastforce
  moreover from Suc.prems(3) have "\<forall>i<k. pathPartCompare V fmt (p1' ! i) (p2' ! i) = Inr 0"
    unfolding p by fastforce
  ultimately show ?case
    using Suc.IH [of p1' p2'] Suc.prems unfolding p
    by (simp add: pathIsLess_Cons_Cons)
qed

section \<open>Properties of the patch sort\<close>

lemma vals_at_simps:
  "vals_at DiffChangeRemoved = 0" "vals_at DiffChangeModified = 1" "vals_at DiffChangeAdded = 2"
  by (simp_all add: vals_at_def vals_def)

lemma Difference_Less_trans:
  assumes vo: "valueOrder V fmt"
    and ab: "Difference_Less V fmt a b = Inr True"
    and bc: "Difference_Less V fmt b c = Inr True"
  shows "Difference_Less V fmt a c = Inr True"
proof (cases "Path a = Path b")
  case eq1: True
  show ?thesis
  proof (cases "Path b = Path c")
    case True
    with eq1 ab bc show ?thesis
      by (simp add: Difference_Less_def Path_Equals_def)
  next
    case False
    with eq1 ab bc show ?thesis
      by (simp add: Difference_Less_def Path_Equals_def)
  qed
next
  case ne1: False
  then have l1: "pathIsLess V fmt (Path a) (Path b) = Inr True"
    using ab by (simp add: Difference_Less_def Path_Equals_def)
  show ?thesis
  proof (cases "Path b = Path c")
    case True
    with ne1 l1 show ?thesis
      by (simp add: Difference_Less_def Path_Equals_def)
  next
    case False
    then have l2: "pathIsLess V fmt (Path b) (Path c) = Inr True"
      using bc by (simp add: Difference_Less_def Path_Equals_def)
    have l3: "pathIsLess V fmt (Path a) (Path c) = Inr True"
      by (rule pathIsLess_trans [OF vo l1 l2])
    have "Path a \<noteq> Path c"
      using pathIsLess_asym [OF vo l1] l2 by auto
    with l3 show ?thesis
      by (simp add: Difference_Less_def Path_Equals_def)
  qed
qed

lemma Difference_Less_asym:
  assumes vo: "valueOrder V fmt"
    and ab: "Difference_Less V fmt a b = Inr True"
  shows "Difference_Less V fmt b a = Inr False"
proof (cases "Path a = Path b")
  case True
  with ab show ?thesis
    by (simp add: Difference_Less_def Path_Equals_def)
next
  case False
  then have "pathIsLess V fmt (Path a) (Path b) = Inr True"
    using ab by (simp add: Difference_Less_def Path_Equals_def)
  from pathIsLess_asym [OF vo this] False show ?thesis
    by (auto simp add: Difference_Less_def Path_Equals_def)
qed

lemma PatchSort_Less_adjacent:
  "Suc i < length (patch ps) \<Longrightarrow>
   PatchSort_Less V ps (int (Suc i)) (int (Suc i) - 1) =
     Difference_Less V (format ps) (patch ps ! Suc i) (patch ps ! i)"
proof -
  assume "Suc i < length (patch ps)"
  moreover have "nat (int (Suc i)) = Suc i" "nat (int (Suc i) - 1) = i"
    by simp_all
  ultimately show ?thesis
    unfolding PatchSort_Less_def inRange_def by (simp del: of_nat_Suc)
qed

lemma IsSorted_loop_adjacent:
  "n < length (patch ps) \<Longrightarrow> IsSorted_loop V ps n = Inr True \<Longrightarrow> i < n \<Longrightarrow>
   Difference_Less V (format ps) (patch ps ! Suc i) (patch ps ! i) = Inr False"
proof (induction n)
  case 0
  then show ?case by simp
next
  case (Suc n)
  from Suc.prems(1) have less:
    "PatchSort_Less V ps (int (Suc n)) (int (Suc n) - 1) =
       Difference_Less V (format ps) (patch ps ! Suc n) (patch ps ! n)"
    by (rule PatchSort_Less_adjacent)
  from Suc.prems(2) have here:
    "Difference_Less V (format ps) (patch ps ! Suc n) (patch ps ! n) = Inr False"
    and rest: "IsSorted_loop V ps n = Inr True"
    unfolding IsSorted_loop.simps less by (auto split: sum.splits if_splits)
  show ?case
  proof (cases "i = n")
    case True
    with here show ?thesis by simp
  next
    case False
    with Suc.prems have "i < n" "n < length (patch ps)" by simp_all
    with Suc.IH rest show ?thesis by simp
  qed
qed

lemma IsSorted_adjacent:
  assumes "IsSorted V ps = Inr True" and "Suc i < length (patch ps)"
  shows "Difference_Less V (format ps) (patch ps ! Suc i) (patch ps ! i) = Inr False"
proof -
  have "nat (PatchSort_Len ps - 1) = length (patch ps) - 1"
    by (simp add: PatchSort_Len_def)
  with assms show ?thesis
    using IsSorted_loop_adjacent [of "length (patch ps) - 1" ps V i]
    by (simp add: IsSorted_def)
qed

lemma sorted_wrt_unique:
  assumes anti: "\<And>a b. a \<in> set xs \<Longrightarrow> b \<in> set xs \<Longrightarrow> Q a b \<Longrightarrow> Q b a \<Longrightarrow> a = b"
  shows "sorted_wrt Q xs \<Longrightarrow> sorted_wrt Q ys \<Longrightarrow> mset xs = mset ys \<Longrightarrow> xs = ys"
  using anti
proof (induction xs arbitrary: ys)
  case Nil
  then show ?case by simp
next
  case (Cons x xs)
  from Cons.prems(3) obtain y ys' where ys: "ys = y # ys'"
    by (cases ys) auto
  have sets: "set (x # xs) = set (y # ys')"
    using Cons.prems(3) unfolding ys by (rule mset_eq_setD)
  have "x = y"
  proof (rule ccontr)
    assume ne: "x \<noteq> y"
    with sets have mem: "x \<in> set ys'" "y \<in> set xs" by auto
    with Cons.prems(1,2) have "Q y x" "Q x y"
      unfolding ys by auto
    with Cons.prems(4) [of x y] mem ne show False by auto
  qed
  with Cons.prems(3) have "mset xs = mset ys'"
    unfolding ys by simp
  moreover from Cons.prems have "sorted_wrt Q xs" "sorted_wrt Q ys'"
    unfolding ys by simp_all
  ultimately have "xs = ys'"
    using Cons.IH [of ys'] Cons.prems(4) by auto
  with \<open>x = y\<close> show ?case by (simp add: ys)
qed

lemma PatchSort_Swap_adjacent:
  "Suc j < length (patch ps) \<Longrightarrow>
   PatchSort_Swap ps (int (Suc j)) (int (Suc j) - 1) =
     Inr (ps\<lparr>patch := (patch ps)[Suc j := patch ps ! j, j := patch ps ! Suc j]\<rparr>)"
proof -
  assume "Suc j < length (patch ps)"
  moreover have "nat (int (Suc j)) = Suc j" "nat (int (Suc j) - 1) = j"
    by simp_all
  ultimately show ?thesis
    unfolding PatchSort_Swap_def inRange_def by (simp del: of_nat_Suc)
qed

lemma mset_swap_adjacent:
  "Suc j < length xs \<Longrightarrow> mset (xs[Suc j := xs ! j, j := xs ! Suc j]) = mset xs"
  using mset_swap [of j xs "Suc j"] by simp

lemma insertionSort_inner_sorted:
  assumes vo: "valueOrder V (format ps0)"
  shows "insertionSort_inner V ps 0 j = Inr qs \<Longrightarrow> format ps = format ps0 \<Longrightarrow>
     j \<le> i \<Longrightarrow> i < length (patch ps) \<Longrightarrow>
     (\<forall>k. Suc k < j \<longrightarrow>
        Difference_Less V (format ps0) (patch ps ! Suc k) (patch ps ! k) = Inr False) \<Longrightarrow>
     (\<forall>k. j < k \<and> Suc k \<le> i \<longrightarrow>
        Difference_Less V (format ps0) (patch ps ! Suc k) (patch ps ! k) = Inr False) \<Longrightarrow>
     (j < i \<longrightarrow>
        Difference_Less V (format ps0) (patch ps ! Suc j) (patch ps ! j) = Inr False) \<Longrightarrow>
     (0 < j \<and> j < i \<longrightarrow>
        Difference_Less V (format ps0) (patch ps ! Suc j) (patch ps ! (j - 1)) = Inr False) \<Longrightarrow>
     adjSorted V (format ps0) (patch qs) (Suc i) \<and> mset (patch qs) = mset (patch ps) \<and>
       format qs = format ps0"
proof (induction j arbitrary: ps)
  case 0
  then have qs: "qs = ps" by simp
  have "Difference_Less V (format ps0) (patch ps ! Suc k) (patch ps ! k) = Inr False"
    if "Suc k < Suc i" for k
  proof (cases k)
    case 0
    with that "0.prems"(7) show ?thesis by simp
  next
    case (Suc k')
    with that "0.prems"(6) show ?thesis by simp
  qed
  with "0.prems"(2) show ?case
    by (simp add: qs adjSorted_def)
next
  case (Suc j)
  let ?xs = "patch ps"
  from Suc.prems(3,4) have jlen: "Suc j < length ?xs" by simp
  have less: "PatchSort_Less V ps (int (Suc j)) (int (Suc j) - 1) =
      Difference_Less V (format ps0) (?xs ! Suc j) (?xs ! j)"
    using PatchSort_Less_adjacent [OF jlen, of V] Suc.prems(2) by simp
  show ?case
  proof (cases "Difference_Less V (format ps0) (?xs ! Suc j) (?xs ! j)")
    case (Inl e)
    with Suc.prems(1) less show ?thesis by simp
  next
    case (Inr b)
    show ?thesis
    proof (cases b)
      case False
      with Suc.prems(1) less Inr have qs: "qs = ps" by simp
      have "Difference_Less V (format ps0) (?xs ! Suc k) (?xs ! k) = Inr False"
        if "Suc k < Suc i" for k
      proof -
        consider "Suc k < Suc j" | "k = j" | "k = Suc j" | "Suc j < k"
          by linarith
        then show ?thesis
        proof cases
          case 1
          with Suc.prems(5) show ?thesis by simp
        next
          case 2
          with Inr False show ?thesis by simp
        next
          case 3
          with that Suc.prems(7) show ?thesis by simp
        next
          case 4
          with that Suc.prems(6) show ?thesis by simp
        qed
      qed
      with Suc.prems(2) show ?thesis
        by (simp add: qs adjSorted_def)
    next
      case True
      define ps' where "ps' = ps\<lparr>patch := ?xs[Suc j := ?xs ! j, j := ?xs ! Suc j]\<rparr>"
      let ?ys = "patch ps'"
      have ys: "?ys = ?xs[Suc j := ?xs ! j, j := ?xs ! Suc j]"
        by (simp add: ps'_def)
      have swap: "PatchSort_Swap ps (int (Suc j)) (int (Suc j) - 1) = Inr ps'"
        unfolding ps'_def by (rule PatchSort_Swap_adjacent [OF jlen])
      from Suc.prems(1) less Inr True swap
      have run: "insertionSort_inner V ps' 0 j = Inr qs" by simp
      have fmt: "format ps' = format ps0"
        using Suc.prems(2) by (simp add: ps'_def)
      have len: "length ?ys = length ?xs"
        by (simp add: ys)
      have at_j: "?ys ! j = ?xs ! Suc j" and at_Sj: "?ys ! Suc j = ?xs ! j"
        using jlen by (simp_all add: ys)
      have other: "?ys ! k = ?xs ! k" if "k \<noteq> j" "k \<noteq> Suc j" for k
        using that by (simp add: ys)
      have asym: "Difference_Less V (format ps0) (?xs ! j) (?xs ! Suc j) = Inr False"
        using Difference_Less_asym [OF vo] Inr True by simp
      have p1: "\<forall>k. Suc k < j \<longrightarrow>
          Difference_Less V (format ps0) (?ys ! Suc k) (?ys ! k) = Inr False"
        using Suc.prems(5) by (simp add: other)
      have p2: "\<forall>k. j < k \<and> Suc k \<le> i \<longrightarrow>
          Difference_Less V (format ps0) (?ys ! Suc k) (?ys ! k) = Inr False"
      proof (intro allI impI)
        fix k
        assume k: "j < k \<and> Suc k \<le> i"
        show "Difference_Less V (format ps0) (?ys ! Suc k) (?ys ! k) = Inr False"
        proof (cases "k = Suc j")
          case True
          with k Suc.prems(8) show ?thesis
            by (simp add: at_Sj other)
        next
          case False
          with k Suc.prems(6) show ?thesis
            by (simp add: other)
        qed
      qed
      have p3: "j < i \<longrightarrow>
          Difference_Less V (format ps0) (?ys ! Suc j) (?ys ! j) = Inr False"
        using asym by (simp add: at_j at_Sj)
      have p4: "0 < j \<and> j < i \<longrightarrow>
          Difference_Less V (format ps0) (?ys ! Suc j) (?ys ! (j - 1)) = Inr False"
      proof
        assume "0 < j \<and> j < i"
        then obtain j' where j': "j = Suc j'" by (cases j) auto
        with Suc.prems(5) have
          "Difference_Less V (format ps0) (?xs ! j) (?xs ! (j - 1)) = Inr False"
          by simp
        moreover have "?ys ! (j - 1) = ?xs ! (j - 1)"
          using j' by (intro other) simp_all
        ultimately
        show "Difference_Less V (format ps0) (?ys ! Suc j) (?ys ! (j - 1)) = Inr False"
          by (simp only: at_Sj)
      qed
      from Suc.prems(3,4) have "j \<le> i" "i < length ?ys"
        by (simp_all add: len)
      from Suc.IH [OF run fmt this p1 p2 p3 p4]
      have "adjSorted V (format ps0) (patch qs) (Suc i) \<and> mset (patch qs) = mset ?ys \<and>
          format qs = format ps0" .
      moreover have "mset ?ys = mset ?xs"
        unfolding ys by (rule mset_swap_adjacent [OF jlen])
      ultimately show ?thesis by simp
    qed
  qed
qed

lemma insertionSort_outer_sorted:
  assumes vo: "valueOrder V (format ps0)"
  shows "insertionSort_outer V ps 0 b i = Inr qs \<Longrightarrow> format ps = format ps0 \<Longrightarrow>
     b \<le> length (patch ps) \<Longrightarrow> adjSorted V (format ps0) (patch ps) i \<Longrightarrow>
     adjSorted V (format ps0) (patch qs) b \<and> mset (patch qs) = mset (patch ps) \<and>
       format qs = format ps0"
proof (induction "b - i" arbitrary: ps i)
  case 0
  then have "\<not> i < b" by simp
  with "0.prems"(1) have qs: "qs = ps"
    by (simp add: insertionSort_outer.simps)
  from "0.prems"(4) \<open>\<not> i < b\<close> have "adjSorted V (format ps0) (patch ps) b"
    unfolding adjSorted_def by simp
  with "0.prems"(2) show ?case by (simp add: qs)
next
  case (Suc n)
  then have True: "i < b" by simp
  from Suc.prems(1) True obtain ps' where
    inner: "insertionSort_inner V ps 0 i = Inr ps'"
    and rest: "insertionSort_outer V ps' 0 b (i + 1) = Inr qs"
    by (subst (asm) insertionSort_outer.simps) (auto split: sum.splits)
  from True Suc.prems(3) have ilen: "i < length (patch ps)" by simp
  have "adjSorted V (format ps0) (patch ps') (Suc i) \<and> mset (patch ps') = mset (patch ps) \<and>
      format ps' = format ps0"
    using insertionSort_inner_sorted [OF vo inner Suc.prems(2) le_refl ilen]
      Suc.prems(4) unfolding adjSorted_def by simp
  then have s: "adjSorted V (format ps0) (patch ps') (i + 1)"
    and m: "mset (patch ps') = mset (patch ps)" and f: "format ps' = format ps0"
    by simp_all
  from m have "length (patch ps') = length (patch ps)"
    by (rule mset_eq_length)
  with Suc.prems(3) have b: "b \<le> length (patch ps')" by simp
  from Suc.hyps(2) have "n = b - (i + 1)" by simp
  from Suc.hyps(1) [OF this rest f b s] m show ?case by simp
qed

lemma IsSorted_loop_of_adjacent:
  "n < length (patch ps) \<Longrightarrow>
   (\<forall>k. k < n \<longrightarrow> Difference_Less V (format ps) (patch ps ! Suc k) (patch ps ! k) = Inr False) \<Longrightarrow>
   IsSorted_loop V ps n = Inr True"
proof (induction n)
  case 0
  then show ?case by simp
next
  case (Suc n)
  from Suc.prems(1) have
    "PatchSort_Less V ps (int (Suc n)) (int (Suc n) - 1) =
       Difference_Less V (format ps) (patch ps ! Suc n) (patch ps ! n)"
    by (rule PatchSort_Less_adjacent)
  moreover from Suc.prems(2) have
    "Difference_Less V (format ps) (patch ps ! Suc n) (patch ps ! n) = Inr False"
    by simp
  moreover from Suc have "IsSorted_loop V ps n = Inr True" by simp
  ultimately show ?case by simp
qed

lemma IsSorted_of_adjSorted:
  assumes "adjSorted V (format ps) (patch ps) (length (patch ps))"
  shows "IsSorted V ps = Inr True"
proof (cases "patch ps = []")
  case True
  then show ?thesis by (simp add: IsSorted_def PatchSort_Len_def)
next
  case False
  have n: "nat (PatchSort_Len ps - 1) = length (patch ps) - 1"
    by (simp add: PatchSort_Len_def)
  from False have "length (patch ps) - 1 < length (patch ps)" by simp
  moreover from assms have
    "\<forall>k. k < length (patch ps) - 1 \<longrightarrow>
       Difference_Less V (format ps) (patch ps ! Suc k) (patch ps ! k) = Inr False"
    unfolding adjSorted_def by simp
  ultimately show ?thesis
    unfolding IsSorted_def n by (rule IsSorted_loop_of_adjacent)
qed

lemma insertionSort_sorted:
  assumes vo: "valueOrder V (format ps)"
    and run: "insertionSort V ps 0 (nat (PatchSort_Len ps)) = Inr qs"
  shows "IsSorted V qs = Inr True \<and> mset (patch qs) = mset (patch ps) \<and> format qs = format ps"
proof -
  from run have outer: "insertionSort_outer V ps 0 (length (patch ps)) (0 + 1) = Inr qs"
    unfolding insertionSort_def PatchSort_Len_def by simp
  have "adjSorted V (format ps) (patch ps) (0 + 1)"
    by (simp add: adjSorted_def)
  from insertionSort_outer_sorted [OF vo outer refl le_refl this]
  have s: "adjSorted V (format ps) (patch qs) (length (patch ps))"
    and m: "mset (patch qs) = mset (patch ps)" and f: "format qs = format ps"
    by simp_all
  from m have "length (patch qs) = length (patch ps)"
    by (rule mset_eq_length)
  with s f have "adjSorted V (format qs) (patch qs) (length (patch qs))" by simp
  then have "IsSorted V qs = Inr True" by (rule IsSorted_of_adjSorted)
  with m f show ?thesis by simp
qed

lemma Difference_Less_refl: "Difference_Less V fmt a a = Inr False"
  by (simp add: Difference_Less_def Path_Equals_def)

lemma noTies_comparable:
  assumes vo: "valueOrder V fmt"
    and noTies: "\<forall>d\<in>S. \<forall>d'\<in>S. d \<noteq> d' \<longrightarrow>
       Difference_Less V fmt d d' = Inr True \<or> Difference_Less V fmt d' d = Inr True"
    and mem: "a \<in> S" "b \<in> S"
  shows "\<exists>r. Difference_Less V fmt a b = Inr r"
proof (cases "a = b")
  case True
  then show ?thesis using Difference_Less_refl [of V fmt b] by blast
next
  case False
  with noTies mem have
    "Difference_Less V fmt a b = Inr True \<or> Difference_Less V fmt b a = Inr True"
    by blast
  then show ?thesis
    using Difference_Less_asym [OF vo, of b a] by auto
qed

lemma insertionSort_inner_returns:
  "j < length (patch ps) \<Longrightarrow> format ps = fmt \<Longrightarrow> set (patch ps) = S \<Longrightarrow>
   (\<forall>a\<in>S. \<forall>b\<in>S. \<exists>r. Difference_Less V fmt a b = Inr r) \<Longrightarrow>
   \<exists>qs. insertionSort_inner V ps 0 j = Inr qs \<and> mset (patch qs) = mset (patch ps) \<and>
     format qs = fmt"
proof (induction j arbitrary: ps)
  case 0
  then show ?case by simp
next
  case (Suc j)
  let ?xs = "patch ps"
  from Suc.prems(1) have jlen: "Suc j < length ?xs" .
  have less: "PatchSort_Less V ps (int (Suc j)) (int (Suc j) - 1) =
      Difference_Less V fmt (?xs ! Suc j) (?xs ! j)"
    using PatchSort_Less_adjacent [OF jlen, of V] Suc.prems(2) by simp
  from jlen Suc.prems(3) have "?xs ! Suc j \<in> S" "?xs ! j \<in> S"
    by (auto simp del: nth_mem dest: Suc_lessD intro: nth_mem)
  with Suc.prems(4) obtain r where r: "Difference_Less V fmt (?xs ! Suc j) (?xs ! j) = Inr r"
    by blast
  show ?case
  proof (cases r)
    case False
    with less r Suc.prems(2) show ?thesis by simp
  next
    case True
    define ps' where "ps' = ps\<lparr>patch := ?xs[Suc j := ?xs ! j, j := ?xs ! Suc j]\<rparr>"
    have swap: "PatchSort_Swap ps (int (Suc j)) (int (Suc j) - 1) = Inr ps'"
      unfolding ps'_def by (rule PatchSort_Swap_adjacent [OF jlen])
    have m: "mset (patch ps') = mset ?xs"
      unfolding ps'_def using mset_swap_adjacent [OF jlen] by simp
    then have "set (patch ps') = S" "length (patch ps') = length ?xs"
      using Suc.prems(3) mset_eq_setD mset_eq_length by blast+
    moreover have "format ps' = fmt"
      using Suc.prems(2) by (simp add: ps'_def)
    ultimately obtain qs where
      "insertionSort_inner V ps' 0 j = Inr qs" "mset (patch qs) = mset (patch ps')"
      "format qs = fmt"
      using Suc.IH [of ps'] jlen Suc.prems(4) by auto
    with less r True swap m show ?thesis by simp
  qed
qed

lemma insertionSort_outer_returns:
  "b \<le> length (patch ps) \<Longrightarrow> format ps = fmt \<Longrightarrow> set (patch ps) = S \<Longrightarrow>
   (\<forall>a\<in>S. \<forall>b\<in>S. \<exists>r. Difference_Less V fmt a b = Inr r) \<Longrightarrow>
   \<exists>qs. insertionSort_outer V ps 0 b i = Inr qs"
proof (induction "b - i" arbitrary: ps i)
  case 0
  then show ?case by (simp add: insertionSort_outer.simps)
next
  case (Suc n)
  then have lt: "i < b" by simp
  with Suc.prems(1) have "i < length (patch ps)" by simp
  from insertionSort_inner_returns [OF this Suc.prems(2,3,4)] obtain ps' where
    inner: "insertionSort_inner V ps 0 i = Inr ps'"
    and m: "mset (patch ps') = mset (patch ps)" and f: "format ps' = fmt"
    by blast
  from m have "set (patch ps') = S" "length (patch ps') = length (patch ps)"
    using Suc.prems(3) mset_eq_setD mset_eq_length by blast+
  moreover from Suc.hyps(2) have "n = b - (i + 1)" by simp
  ultimately obtain qs where "insertionSort_outer V ps' 0 b (i + 1) = Inr qs"
    using Suc.hyps(1) [of "i + 1" ps'] Suc.prems(1,4) f by auto
  with lt inner show ?case
    by (subst insertionSort_outer.simps) simp
qed

lemma insertionSort_returns:
  assumes "\<forall>a\<in>set (patch ps). \<forall>b\<in>set (patch ps).
       \<exists>r. Difference_Less V (format ps) a b = Inr r"
  shows "\<exists>qs. insertionSort V ps 0 (nat (PatchSort_Len ps)) = Inr qs"
  using insertionSort_outer_returns [OF le_refl refl refl assms, of "0 + 1"]
  unfolding insertionSort_def PatchSort_Len_def by simp

lemma sorted_arrangement_unique:
  assumes vo: "valueOrder V fmt"
    and fmt: "format qs = fmt" "format qs' = fmt"
    and perm: "mset (patch qs') = mset (patch qs)"
    and noTies: "\<forall>d\<in>set (patch qs). \<forall>d'\<in>set (patch qs). d \<noteq> d' \<longrightarrow>
       Difference_Less V fmt d d' = Inr True \<or> Difference_Less V fmt d' d = Inr True"
    and s1: "IsSorted V qs = Inr True"
    and s2: "IsSorted V qs' = Inr True"
  shows "patch qs' = patch qs"
proof -
  define Q where "Q a b \<longleftrightarrow> a = b \<or> Difference_Less V fmt a b = Inr True" for a b
  have tr: "transp Q"
    unfolding Q_def using Difference_Less_trans [OF vo]
    by (intro transpI) blast
  have sets: "set (patch qs') = set (patch qs)"
    using perm by (rule mset_eq_setD)
  have adj: "Q (patch rs ! i) (patch rs ! Suc i)"
    if "IsSorted V rs = Inr True" "format rs = fmt" "set (patch rs) = set (patch qs)"
      "Suc i < length (patch rs)" for rs i
  proof (cases "patch rs ! i = patch rs ! Suc i")
    case True
    then show ?thesis by (simp add: Q_def)
  next
    case False
    have "patch rs ! i \<in> set (patch qs)" "patch rs ! Suc i \<in> set (patch qs)"
      using that(3,4) by (auto simp del: nth_mem dest: nth_mem [of _ "patch rs"] Suc_lessD)
    with noTies False have
      "Difference_Less V fmt (patch rs ! i) (patch rs ! Suc i) = Inr True \<or>
       Difference_Less V fmt (patch rs ! Suc i) (patch rs ! i) = Inr True"
      by blast
    moreover have
      "Difference_Less V fmt (patch rs ! Suc i) (patch rs ! i) = Inr False"
      using IsSorted_adjacent [OF that(1,4)] that(2) by simp
    ultimately show ?thesis by (simp add: Q_def)
  qed
  have "sorted_wrt Q (patch qs)"
    unfolding sorted_wrt_iff_nth_Suc_transp [OF tr] using adj [of qs] s1 fmt by simp
  moreover have "sorted_wrt Q (patch qs')"
    unfolding sorted_wrt_iff_nth_Suc_transp [OF tr] using adj [of qs'] s2 fmt sets by simp
  moreover have "a = b" if "Q a b" "Q b a" for a b
    using that Difference_Less_asym [OF vo, of a b] unfolding Q_def by auto
  ultimately show ?thesis
    using sorted_wrt_unique [of "patch qs'" Q "patch qs"] perm by blast
qed

section \<open>Properties of the loop of MergeCommits\<close>

lemma MergeCommits_loop_error:
  "snd (MergeCommits_loop env merger tblNames root tblToStats calls) = Inr (r, s, Some e)
     \<Longrightarrow> r = None \<and> s = None"
  by (induction tblNames arbitrary: root tblToStats calls)
    (auto split: sum.splits option.splits if_splits prod.splits)

lemma MergeCommits_loop_frame:
  assumes contract: "rootContract env"
  shows "snd (MergeCommits_loop env merger tblNames root tblToStats calls)
       = Inr (Some root', Some stats', None) \<Longrightarrow>
     T \<notin> set tblNames \<Longrightarrow>
     stats' T = tblToStats T \<and> HasTable env root' T = HasTable env root T"
proof (induction tblNames arbitrary: root tblToStats calls)
  case Nil
  then show ?case by simp
next
  case (Cons n rest)
  from Cons.prems(2) have ne: "T \<noteq> n" and notin: "T \<notin> set rest" by auto
  show ?case
  proof (cases "MergeTable env merger n")
    case (Inl e)
    with Cons.prems(1) show ?thesis by simp
  next
    case (Inr res)
    obtain mergedTable st where res: "res = (mergedTable, st)" by (cases res)
    show ?thesis
    proof (cases mergedTable)
      case (Some tbl)
      show ?thesis
      proof (cases "PutTable env root n tbl")
        case (Inl e)
        with Cons.prems(1) Inr res Some show ?thesis by simp
      next
        case put: (Inr root1)
        with Cons.prems(1) Inr res Some have
          "snd (MergeCommits_loop env merger rest root1 (tblToStats(n \<mapsto> st))
             (calls @ [CallMergeTable n, CallPutTable n])) = Inr (Some root', Some stats', None)"
          by simp
        from Cons.IH [OF this notin] have
          "stats' T = (tblToStats(n \<mapsto> st)) T \<and> HasTable env root' T = HasTable env root1 T" .
        moreover have "HasTable env root1 T = HasTable env root T"
          using contract put ne unfolding rootContract_def by blast
        ultimately show ?thesis using ne by simp
      qed
    next
      case None
      show ?thesis
      proof (cases "HasTable env root n")
        case (Inl e)
        with Cons.prems(1) Inr res None show ?thesis by simp
      next
        case has: (Inr b)
        show ?thesis
        proof (cases b)
          case False
          with Cons.prems(1) Inr res None has show ?thesis by simp
        next
          case True
          show ?thesis
          proof (cases "RemoveTables env root n")
            case (Inl e)
            with Cons.prems(1) Inr res None has True show ?thesis by simp
          next
            case rm: (Inr root1)
            with Cons.prems(1) Inr res None has True have
              "snd (MergeCommits_loop env merger rest root1 (tblToStats(n \<mapsto> Some removedStats))
                 (calls @ [CallMergeTable n, CallHasTable n, CallRemoveTables n]))
               = Inr (Some root', Some stats', None)"
              by simp
            from Cons.IH [OF this notin] have
              "stats' T = (tblToStats(n \<mapsto> Some removedStats)) T \<and>
               HasTable env root' T = HasTable env root1 T" .
            moreover have "HasTable env root1 T = HasTable env root T"
              using contract rm ne unfolding rootContract_def by blast
            ultimately show ?thesis using ne by simp
          qed
        qed
      qed
    qed
  qed
qed

lemma MergeCommits_loop_removed:
  assumes contract: "rootContract env"
  shows "snd (MergeCommits_loop env merger tblNames root tblToStats calls)
       = Inr (Some root', Some stats', None) \<Longrightarrow>
     distinct tblNames \<Longrightarrow> T \<in> set tblNames \<Longrightarrow>
     MergeTable env merger T = Inr (None, st) \<Longrightarrow>
     stats' T = Some (Some removedStats) \<and> HasTable env root' T = Inr False"
proof (induction tblNames arbitrary: root tblToStats calls)
  case Nil
  then show ?case by simp
next
  case (Cons n rest)
  from Cons.prems(2) have notin: "n \<notin> set rest" and dist: "distinct rest" by auto
  show ?case
  proof (cases "T = n")
    case True
    from Cons.prems(1,4) True obtain root1 where
      rm: "RemoveTables env root n = Inr root1"
      and rest: "snd (MergeCommits_loop env merger rest root1
             (tblToStats(n \<mapsto> Some removedStats))
             (calls @ [CallMergeTable n, CallHasTable n, CallRemoveTables n]))
           = Inr (Some root', Some stats', None)"
      by (auto split: sum.splits if_splits)
    from MergeCommits_loop_frame [OF contract rest notin] have
      "stats' n = Some (Some removedStats)" "HasTable env root' n = HasTable env root1 n"
      by simp_all
    moreover have "HasTable env root1 n = Inr False"
      using contract rm unfolding rootContract_def by blast
    ultimately show ?thesis using True by simp
  next
    case False
    with Cons.prems(3) have mem: "T \<in> set rest" by simp
    from Cons.prems(1) obtain root1 stats1 calls1 where
      "snd (MergeCommits_loop env merger rest root1 stats1 calls1)
         = Inr (Some root', Some stats', None)"
      by (auto split: sum.splits option.splits if_splits prod.splits)
    from Cons.IH [OF this dist mem Cons.prems(4)] show ?thesis .
  qed
qed

lemma collaboratorsSucceed_step:
  assumes contract: "rootContract env"
    and ok: "collaboratorsSucceed env merger (n # rest) root"
    and dist: "distinct (n # rest)"
    and step: "PutTable env root n tbl = Inr root1 \<or> RemoveTables env root n = Inr root1"
  shows "collaboratorsSucceed env merger rest root1"
proof -
  have "HasTable env root1 k = HasTable env root k" if "k \<in> set rest" for k
  proof -
    from that dist have "k \<noteq> n" by auto
    with contract step show ?thesis unfolding rootContract_def by blast
  qed
  with ok show ?thesis
    unfolding collaboratorsSucceed_def by simp
qed

lemma MergeCommits_loop_succeeds:
  assumes contract: "rootContract env"
  shows "collaboratorsSucceed env merger tblNames root \<Longrightarrow> distinct tblNames \<Longrightarrow>
     \<exists>root' stats'. snd (MergeCommits_loop env merger tblNames root tblToStats calls)
       = Inr (Some root', Some stats', None)"
proof (induction tblNames arbitrary: root tblToStats calls)
  case Nil
  then show ?case by simp
next
  case (Cons n rest)
  from Cons.prems(2) have dist: "distinct rest" by simp
  from Cons.prems(1) consider
    (put) tbl st where "MergeTable env merger n = Inr (Some tbl, st)"
    | (remove) st where "MergeTable env merger n = Inr (None, st)" "HasTable env root n = Inr True"
    unfolding collaboratorsSucceed_def by auto
  then show ?case
  proof cases
    case put
    from Cons.prems(1) obtain root1 where p: "PutTable env root n tbl = Inr root1"
      unfolding collaboratorsSucceed_def by blast
    from collaboratorsSucceed_step [OF contract Cons.prems(1,2)] p
    have "collaboratorsSucceed env merger rest root1" by blast
    from Cons.IH [OF this dist] put p show ?thesis by simp
  next
    case remove
    from Cons.prems(1) obtain root1 where r: "RemoveTables env root n = Inr root1"
      unfolding collaboratorsSucceed_def by blast
    from collaboratorsSucceed_step [OF contract Cons.prems(1,2)] r
    have "collaboratorsSucceed env merger rest root1" by blast
    from Cons.IH [OF this dist] remove r show ?thesis by simp
  qed
qed

section \<open>The claims on path parts and paths\<close>

text \<open>
  Claim C2. Two path parts of different variants are ordered by their variants,
  FieldPath before IndexPath before HashIndexPath: \<open>pathPartCompare\<close> returns -1 when the
  variant of the first argument precedes that of the second and 1 when it follows it,
  whatever the field names, index values, hashes and IntoKey flags are.
\<close>

theorem pathPartCompare_cross_variant:
  "pathPartCompare V fmt (FieldPath n) (IndexPath i k) = Inr (- 1) \<and>
   pathPartCompare V fmt (FieldPath n) (HashIndexPath h k) = Inr (- 1) \<and>
   pathPartCompare V fmt (IndexPath i k) (HashIndexPath h k') = Inr (- 1) \<and>
   pathPartCompare V fmt (IndexPath i k) (FieldPath n) = Inr 1 \<and>
   pathPartCompare V fmt (HashIndexPath h k) (FieldPath n) = Inr 1 \<and>
   pathPartCompare V fmt (HashIndexPath h k') (IndexPath i k) = Inr 1"
  by simp

text \<open>
  Claim C3. For two IndexPath parts whose Index values are equal under the format, and
  for two HashIndexPath parts with equal hash bytes, the part with IntoKey = true compares
  less than the part with IntoKey = false (and the latter greater than the former), and
  two parts with the same IntoKey compare equal, with result 0.
\<close>

theorem intoKey_tie_break:
  "(Value_Equals V fmt i1 i2 \<longrightarrow>
      pathPartCompare V fmt (IndexPath i1 True) (IndexPath i2 False) = Inr (- 1) \<and>
      pathPartCompare V fmt (IndexPath i1 False) (IndexPath i2 True) = Inr 1 \<and>
      pathPartCompare V fmt (IndexPath i1 k) (IndexPath i2 k) = Inr 0) \<and>
   pathPartCompare V fmt (HashIndexPath h True) (HashIndexPath h False) = Inr (- 1) \<and>
   pathPartCompare V fmt (HashIndexPath h False) (HashIndexPath h True) = Inr 1 \<and>
   pathPartCompare V fmt (HashIndexPath h k) (HashIndexPath h k) = Inr 0"
  using bytes_Compare_eq_iff [of h h]
  by (simp add: hashIndexPathCompare_Hash del: hashIndexPathCompare.simps(3))

theorem intoKey_tie_break_witness:
  "Value_Equals natOps () (7::nat) 7 \<and>
   pathPartCompare natOps () (IndexPath (7::nat) True) (IndexPath 7 False) = Inr (- 1) \<and>
   pathPartCompare natOps () (IndexPath (7::nat) False) (IndexPath 7 True) = Inr 1 \<and>
   pathPartCompare natOps () (IndexPath (7::nat) False) (IndexPath 7 False) = Inr 0"
proof -
  have h: "Value_Equals natOps () (7::nat) 7"
    by (simp add: natOps_def)
  show ?thesis
    using h intoKey_tie_break [where V = natOps and fmt = "()" and ?i1.0 = 7 and ?i2.0 = 7
        and k = False and h = "[]"] by simp
qed

text \<open>
  Claim C9. \<open>pathPartCompare\<close> is total on the three variants: when both arguments are a
  FieldPath, IndexPath or HashIndexPath, it returns -1, 0 or 1, and so does each of
  \<open>fieldPathCompare\<close>, \<open>indexPathCompare\<close> and \<open>hashIndexPathCompare\<close> on a second
  argument of the three variants; in particular none of them reaches
  \<^verbatim>\<open>panic("unreachable")\<close>.
\<close>

theorem pathPartCompare_total:
  fixes pp pp2 :: "'v PathPart"
  shows
  "(isKnownPathPart pp \<and> isKnownPathPart pp2 \<longrightarrow>
      pathPartCompare V fmt pp pp2 \<in> {Inr (- 1), Inr 0, Inr 1}) \<and>
   (isKnownPathPart pp2 \<longrightarrow>
      fieldPathCompare name pp2 \<in> {Inr (- 1), Inr 0, Inr 1} \<and>
      indexPathCompare V fmt idx intoKey pp2 \<in> {Inr (- 1), Inr 0, Inr 1} \<and>
      hashIndexPathCompare h intoKey pp2 \<in> {Inr (- 1), Inr 0, Inr 1})"
proof -
  have "pathPartCompare V fmt pp pp2 \<in> {Inr (- 1), Inr 0, Inr 1}"
    if "isKnownPathPart pp" "isKnownPathPart pp2" for pp :: "'v PathPart"
    using pathPartCompare_range [OF that, of V fmt] by auto
  from this [of pp] this [of "FieldPath name"] this [of "IndexPath idx intoKey"]
    this [of "HashIndexPath h intoKey"]
  show ?thesis by simp
qed

theorem pathPartCompare_total_witness:
  "isKnownPathPart (HashIndexPath [1, 2] True :: nat PathPart) \<and>
   isKnownPathPart (HashIndexPath [1, 3] False :: nat PathPart) \<and>
   pathPartCompare natOps () (HashIndexPath [1, 2] True) (HashIndexPath [1, 3] False)
     \<in> {Inr (- 1), Inr 0, Inr 1} \<and>
   hashIndexPathCompare [1, 2] True (HashIndexPath [1, 3] False :: nat PathPart) = Inr (- 1) \<and>
   fieldPathCompare ''a'' (HashIndexPath [1, 3] False :: nat PathPart) \<in> {Inr (- 1), Inr 0, Inr 1}"
  using pathPartCompare_total [where pp = "HashIndexPath [1, 2] True"
      and ?pp2.0 = "HashIndexPath [1, 3] False" and V = natOps and fmt = "()"
      and name = "''a''" and idx = 0 and intoKey = True and h = "[1, 2]"]
  by simp

text \<open>
  Claim C5. Provided the values are ordered under the format (\<open>valueOrder\<close>), the
  comparison of path parts is a strict weak order: from \<open>a < b\<close> and \<open>b < c\<close> follows
  \<open>a < c\<close> (a result of -1); \<open>a < b\<close> and \<open>b < a\<close> never both hold; on parts of the three
  variants \<open>pathPartCompare b a\<close> is the negation of \<open>pathPartCompare a b\<close>; and comparing
  equal (a result of 0) is transitive. \<open>pathIsLess\<close> is transitive and asymmetric on paths
  in the same way.
\<close>

theorem comparison_strict_order:
  assumes "valueOrder V fmt"
  shows
    "(pathPartCompare V fmt a b = Inr (- 1) \<and> pathPartCompare V fmt b c = Inr (- 1)
        \<longrightarrow> pathPartCompare V fmt a c = Inr (- 1)) \<and>
     \<not> (pathPartCompare V fmt a b = Inr (- 1) \<and> pathPartCompare V fmt b a = Inr (- 1)) \<and>
     (isKnownPathPart a \<and> isKnownPathPart b
        \<longrightarrow> (\<exists>x. pathPartCompare V fmt a b = Inr x \<and> pathPartCompare V fmt b a = Inr (- x))) \<and>
     (pathPartCompare V fmt x y = Inr 0 \<and> pathPartCompare V fmt y z = Inr 0
        \<longrightarrow> pathPartCompare V fmt x z = Inr 0) \<and>
     (pathIsLess V fmt p q = Inr True \<and> pathIsLess V fmt q r = Inr True
        \<longrightarrow> pathIsLess V fmt p r = Inr True) \<and>
     \<not> (pathIsLess V fmt p q = Inr True \<and> pathIsLess V fmt q p = Inr True)"
proof -
  have neg: "\<exists>x. pathPartCompare V fmt a b = Inr x \<and> pathPartCompare V fmt b a = Inr (- x)"
    if "isKnownPathPart a" "isKnownPathPart b"
  proof -
    from pathPartCompare_range [OF that, of V fmt]
    obtain x where "pathPartCompare V fmt a b = Inr x" by blast
    with pathPartCompare_neg [OF assms this] show ?thesis by blast
  qed
  have asym: "\<not> (pathPartCompare V fmt a b = Inr (- 1) \<and> pathPartCompare V fmt b a = Inr (- 1))"
    using pathPartCompare_neg [OF assms, of a b "- 1"] by auto
  have pasym: "\<not> (pathIsLess V fmt p q = Inr True \<and> pathIsLess V fmt q p = Inr True)"
    using pathIsLess_asym [OF assms, of p q] by auto
  show ?thesis
    using neg asym pasym pathPartCompare_less_trans [OF assms, of a b c]
      pathPartCompare_eq_trans [OF assms, of x y z] pathIsLess_trans [OF assms, of p q r]
    by blast
qed

theorem comparison_strict_order_witness:
  "valueOrder natOps () \<and>
   pathPartCompare natOps () (FieldPath ''a'') (IndexPath (3::nat) True) = Inr (- 1) \<and>
   pathPartCompare natOps () (IndexPath (3::nat) True) (IndexPath 3 False) = Inr (- 1) \<and>
   pathPartCompare natOps () (FieldPath ''a'') (IndexPath (3::nat) False) = Inr (- 1) \<and>
   pathPartCompare natOps () (IndexPath (3::nat) True) (FieldPath ''a'') \<noteq> Inr (- 1) \<and>
   isKnownPathPart (FieldPath ''a'' :: nat PathPart) \<and>
   isKnownPathPart (IndexPath (3::nat) True) \<and>
   pathPartCompare natOps () (HashIndexPath [1] True :: nat PathPart) (HashIndexPath [1] True)
     = Inr 0 \<and>
   pathIsLess natOps () [FieldPath ''a''] [FieldPath ''a'', IndexPath (3::nat) True] = Inr True \<and>
   pathIsLess natOps () [FieldPath ''a'', IndexPath (3::nat) True]
     [FieldPath ''a'', IndexPath 3 False] = Inr True \<and>
   pathIsLess natOps () [FieldPath ''a''] [FieldPath ''a'', IndexPath (3::nat) False] = Inr True \<and>
   pathIsLess natOps () [FieldPath ''a'', IndexPath (3::nat) True] [FieldPath ''a'']
     \<noteq> Inr True"
proof -
  have h: "valueOrder natOps ()"
    by (auto simp add: valueOrder_def natOps_def)
  have e: "Value_Equals natOps () (3::nat) 3"
    by (simp add: natOps_def)
  show ?thesis
    using h e comparison_strict_order [OF h, where a = "FieldPath ''a''"
        and b = "IndexPath 3 True" and c = "IndexPath 3 False"
        and x = "HashIndexPath [1] True" and y = "HashIndexPath [1] True"
        and z = "HashIndexPath [1] True"
        and p = "[FieldPath ''a'']" and q = "[FieldPath ''a'', IndexPath 3 True]"
        and r = "[FieldPath ''a'', IndexPath 3 False]"]
    by (simp add: pathIsLess_Cons_Cons pathIsLess_Nil pathIsLess_Cons_Nil)
qed

text \<open>
  Claim C4. Provided the values are ordered under the format: when \<open>p1\<close> is a strict
  prefix of \<open>p2\<close> (it is shorter and each of its parts compares equal to the part of \<open>p2\<close>
  at the same index), \<open>pathIsLess p1 p2\<close> is true and \<open>pathIsLess p2 p1\<close> is false.
  More generally the first index \<open>k\<close> from the root at which the parts do not compare
  equal decides: \<open>pathIsLess q1 q2\<close> is true exactly when the part of \<open>q1\<close> compares less
  there.
\<close>

theorem pathIsLess_prefix_and_first_difference:
  assumes "valueOrder V fmt"
  shows
    "(length p1 < length p2 \<and>
      (\<forall>i<length p1. pathPartCompare V fmt (p1 ! i) (p2 ! i) = Inr 0)
        \<longrightarrow> pathIsLess V fmt p1 p2 = Inr True \<and> pathIsLess V fmt p2 p1 = Inr False) \<and>
     (k < length q1 \<and> k < length q2 \<and>
      (\<forall>i<k. pathPartCompare V fmt (q1 ! i) (q2 ! i) = Inr 0) \<and>
      pathPartCompare V fmt (q1 ! k) (q2 ! k) = Inr c \<and> c \<noteq> 0
        \<longrightarrow> pathIsLess V fmt q1 q2 = Inr (c = - 1))"
  using pathIsLess_prefix [of p1 p2 V fmt] pathIsLess_prefix_rev [OF assms, of p1 p2]
    pathIsLess_first_difference [of k q1 q2 V fmt c]
  by blast

theorem pathIsLess_prefix_and_first_difference_witness:
  "valueOrder natOps () \<and>
   length [FieldPath ''a'' :: nat PathPart] < length [FieldPath ''a'', IndexPath (3::nat) True] \<and>
   pathPartCompare natOps () ([FieldPath ''a''] ! 0) ([FieldPath ''a'', IndexPath (3::nat) True] ! 0)
     = Inr 0 \<and>
   pathIsLess natOps () [FieldPath ''a''] [FieldPath ''a'', IndexPath (3::nat) True] = Inr True \<and>
   pathIsLess natOps () [FieldPath ''a'', IndexPath (3::nat) True] [FieldPath ''a''] = Inr False \<and>
   pathPartCompare natOps () ([FieldPath ''a'', IndexPath (4::nat) False] ! 0)
     ([FieldPath ''a'', IndexPath 3 True] ! 0) = Inr 0 \<and>
   pathPartCompare natOps () ([FieldPath ''a'', IndexPath (4::nat) False] ! 1)
     ([FieldPath ''a'', IndexPath 3 True] ! 1) = Inr 1 \<and>
   pathIsLess natOps () [FieldPath ''a'', IndexPath (4::nat) False]
     [FieldPath ''a'', IndexPath 3 True] = Inr False"
proof -
  have h: "valueOrder natOps ()"
    by (auto simp add: valueOrder_def natOps_def)
  have c: "pathPartCompare natOps () (IndexPath (4::nat) False) (IndexPath 3 True) = Inr 1"
    by (simp add: natOps_def)
  show ?thesis
    using h c pathIsLess_prefix_and_first_difference [OF h,
        where ?p1.0 = "[FieldPath ''a'']" and ?p2.0 = "[FieldPath ''a'', IndexPath 3 True]"
        and k = 1 and ?q1.0 = "[FieldPath ''a'', IndexPath 4 False]"
        and ?q2.0 = "[FieldPath ''a'', IndexPath 3 True]" and c = 1]
    by simp
qed

section \<open>The claims on the patch sort\<close>

text \<open>
  Claim C1. For two differences of a patch, at any two positions \<open>i\<close> and \<open>j\<close>, whose
  paths are exactly equal, \<open>PatchSort.Less\<close> holds exactly when the change types are
  Removed and Modified, Modified and Added, or Removed and Added, in this order: a
  Removed difference comes before a Modified one, and a Modified one before an Added one.
\<close>

theorem same_path_precedence:
  assumes "inRange (patch ps) i" and "inRange (patch ps) j"
    and "Path_Equals (Path (patch ps ! nat i)) (Path (patch ps ! nat j))"
  shows "PatchSort_Less V ps i j =
     Inr ((ChangeType (patch ps ! nat i), ChangeType (patch ps ! nat j)) \<in>
            {(DiffChangeRemoved, DiffChangeModified),
             (DiffChangeModified, DiffChangeAdded),
             (DiffChangeRemoved, DiffChangeAdded)})"
  using assms
  by (cases "ChangeType (patch ps ! nat i)"; cases "ChangeType (patch ps ! nat j)")
    (simp_all add: PatchSort_Less_def Difference_Less_def vals_at_simps)

theorem same_path_precedence_witness:
  "inRange (patch samePathPatch) 2 \<and> inRange (patch samePathPatch) 1 \<and>
   Path_Equals (Path (patch samePathPatch ! nat 2)) (Path (patch samePathPatch ! nat 1)) \<and>
   PatchSort_Less natOps samePathPatch 2 1 = Inr True"
proof -
  have h: "inRange (patch samePathPatch) 2" "inRange (patch samePathPatch) 1"
    "Path_Equals (Path (patch samePathPatch ! nat 2)) (Path (patch samePathPatch ! nat 1))"
    by (simp_all add: inRange_def samePathPatch_def Path_Equals_def)
  have n: "nat 2 = Suc (Suc 0)"
    by simp
  show ?thesis
    using h same_path_precedence [OF h, of natOps]
    by (simp add: samePathPatch_def n)
qed

text \<open>
  Claim C6, as amended. Let the values be ordered under the format, let the paths of the
  differences consist of FieldPath, IndexPath and HashIndexPath parts, and let of every
  two distinct differences of the collection one be less than the other under
  \<open>PatchSort.Less\<close>. Then sorting the collection is deterministic, whatever its size and the
  order of the input. Any two results of sorting it, that is any two patches that hold
  its differences and are sorted (\<^verbatim>\<open>sort.IsSorted\<close>), are identical, at every position.
  And such a result exists: insertion sort over the whole slice, started from either of
  two input orders \<open>ps\<close> and \<open>ps'\<close>, returns it without a panic.
\<close>

theorem sort_deterministic_without_ties:
  assumes vo: "valueOrder V (format ps)"
    and fmt: "format ps' = format ps"
    and perm: "mset (patch ps') = mset (patch ps)"
    and known: "\<forall>d\<in>set (patch ps). \<forall>pp\<in>set (Path d). isKnownPathPart pp"
    and noTies: "\<forall>d\<in>set (patch ps). \<forall>d'\<in>set (patch ps). d \<noteq> d' \<longrightarrow>
       Difference_Less V (format ps) d d' = Inr True \<or>
       Difference_Less V (format ps) d' d = Inr True"
  shows
    "(\<forall>qs qs'. format qs = format ps \<and> format qs' = format ps \<and>
        mset (patch qs) = mset (patch ps) \<and> mset (patch qs') = mset (patch ps) \<and>
        IsSorted V qs = Inr True \<and> IsSorted V qs' = Inr True
          \<longrightarrow> patch qs' = patch qs) \<and>
     (\<exists>qs qs'. insertionSort V ps 0 (nat (PatchSort_Len ps)) = Inr qs \<and>
        insertionSort V ps' 0 (nat (PatchSort_Len ps')) = Inr qs' \<and>
        format qs = format ps \<and> mset (patch qs) = mset (patch ps) \<and>
        IsSorted V qs = Inr True \<and> patch qs' = patch qs)"
proof -
  have unique: "patch qs' = patch qs"
    if "format qs = format ps" "format qs' = format ps"
      "mset (patch qs) = mset (patch ps)" "mset (patch qs') = mset (patch ps)"
      "IsSorted V qs = Inr True" "IsSorted V qs' = Inr True" for qs qs' :: "('a, 'b) PatchSort"
  proof -
    have "set (patch qs) = set (patch ps)"
      using that(3) by (rule mset_eq_setD)
    with noTies have "\<forall>d\<in>set (patch qs). \<forall>d'\<in>set (patch qs). d \<noteq> d' \<longrightarrow>
       Difference_Less V (format ps) d d' = Inr True \<or>
       Difference_Less V (format ps) d' d = Inr True"
      by simp
    from sorted_arrangement_unique [OF vo that(1,2) _ this that(5,6)] that(3,4)
    show ?thesis by simp
  qed
  have sets: "set (patch ps') = set (patch ps)"
    using perm by (rule mset_eq_setD)
  have vo': "valueOrder V (format ps')"
    using vo fmt by simp
  have comparable: "\<forall>a\<in>set (patch ps). \<forall>b\<in>set (patch ps).
      \<exists>r. Difference_Less V (format ps) a b = Inr r"
    using noTies_comparable [OF vo noTies] by blast
  then have comparable': "\<forall>a\<in>set (patch ps'). \<forall>b\<in>set (patch ps').
      \<exists>r. Difference_Less V (format ps') a b = Inr r"
    by (simp add: sets fmt)
  from insertionSort_returns [OF comparable] obtain qs where
    run: "insertionSort V ps 0 (nat (PatchSort_Len ps)) = Inr qs"
    by blast
  from insertionSort_returns [OF comparable'] obtain qs' where
    run': "insertionSort V ps' 0 (nat (PatchSort_Len ps')) = Inr qs'"
    by blast
  from insertionSort_sorted [OF vo run] have
    s: "IsSorted V qs = Inr True" and m: "mset (patch qs) = mset (patch ps)"
    and f: "format qs = format ps"
    by simp_all
  from insertionSort_sorted [OF vo' run'] fmt perm have
    s': "IsSorted V qs' = Inr True" and m': "mset (patch qs') = mset (patch ps)"
    and f': "format qs' = format ps"
    by simp_all
  have "patch qs' = patch qs"
    by (rule unique [OF f f' m m' s s'])
  with run run' f m s have
    "\<exists>qs qs'. insertionSort V ps 0 (nat (PatchSort_Len ps)) = Inr qs \<and>
        insertionSort V ps' 0 (nat (PatchSort_Len ps')) = Inr qs' \<and>
        format qs = format ps \<and> mset (patch qs) = mset (patch ps) \<and>
        IsSorted V qs = Inr True \<and> patch qs' = patch qs"
    by blast
  with unique show ?thesis by blast
qed

theorem sort_deterministic_without_ties_witness:
  "valueOrder natOps (format shuffledPatch) \<and>
   format ascendingPatch = format shuffledPatch \<and>
   mset (patch ascendingPatch) = mset (patch shuffledPatch) \<and>
   patch shuffledPatch \<noteq> patch ascendingPatch \<and>
   isKnownPathPart (FieldPath ''t'' :: nat PathPart) \<and>
   isKnownPathPart (IndexPath (0::nat) False) \<and>
   Difference_Less natOps () diffRemoved diffAdded = Inr True \<and>
   Difference_Less natOps () diffRemoved diffNested = Inr True \<and>
   Difference_Less natOps () diffAdded diffNested = Inr True \<and>
   IsSorted natOps ascendingPatch = Inr True \<and>
   insertionSort natOps shuffledPatch 0 (nat (PatchSort_Len shuffledPatch))
     = Inr ascendingPatch \<and>
   insertionSort natOps ascendingPatch 0 (nat (PatchSort_Len ascendingPatch))
     = Inr ascendingPatch"
proof -
  have vo: "valueOrder natOps (format shuffledPatch)"
    by (auto simp add: valueOrder_def natOps_def)
  have fmt: "format ascendingPatch = format shuffledPatch"
    by simp
  have perm: "mset (patch ascendingPatch) = mset (patch shuffledPatch)"
    by (simp add: ascendingPatch_def shuffledPatch_def)
  have differ: "patch shuffledPatch \<noteq> patch ascendingPatch"
    by (simp add: ascendingPatch_def shuffledPatch_def diffNested_def diffRemoved_def)
  have parts: "isKnownPathPart (FieldPath ''t'' :: nat PathPart)"
    "isKnownPathPart (IndexPath (0::nat) False)"
    by simp_all
  have known: "\<forall>d\<in>set (patch shuffledPatch). \<forall>pp\<in>set (Path d). isKnownPathPart pp"
    by (simp add: shuffledPatch_def diffNested_def diffRemoved_def diffAdded_def)
  have less: "Difference_Less natOps () diffRemoved diffAdded = Inr True"
    "Difference_Less natOps () diffRemoved diffNested = Inr True"
    "Difference_Less natOps () diffAdded diffNested = Inr True"
    by code_simp+
  have noTies: "\<forall>d\<in>set (patch shuffledPatch). \<forall>d'\<in>set (patch shuffledPatch). d \<noteq> d' \<longrightarrow>
       Difference_Less natOps (format shuffledPatch) d d' = Inr True \<or>
       Difference_Less natOps (format shuffledPatch) d' d = Inr True"
  proof -
    have elems: "set (patch shuffledPatch) = {diffNested, diffRemoved, diffAdded}"
      by (simp add: shuffledPatch_def)
    have f: "format shuffledPatch = ()"
      by simp
    show ?thesis
      unfolding elems f using less by blast
  qed
  have sorted: "IsSorted natOps ascendingPatch = Inr True"
    by code_simp
  have run: "insertionSort natOps shuffledPatch 0 (nat (PatchSort_Len shuffledPatch))
      = Inr ascendingPatch"
    "insertionSort natOps ascendingPatch 0 (nat (PatchSort_Len ascendingPatch))
      = Inr ascendingPatch"
    by code_simp+
  from sort_deterministic_without_ties [OF vo fmt perm known noTies]
  obtain qs qs' where
    "insertionSort natOps shuffledPatch 0 (nat (PatchSort_Len shuffledPatch)) = Inr qs"
    "insertionSort natOps ascendingPatch 0 (nat (PatchSort_Len ascendingPatch)) = Inr qs'"
    "patch qs' = patch qs"
    by blast
  with run have same: "patch ascendingPatch = patch ascendingPatch"
    by simp
  from vo fmt perm differ parts less sorted run same show ?thesis
    by blast
qed

text \<open>
  As stated, without the proviso on ties, the property fails. The two differences of
  \<open>tiePatch1\<close> have the same path and the same change type, so neither is less than the
  other; \<open>tiePatch2\<close> holds them in the opposite order. Both patches are sorted, insertion
  sort over the whole slice (which is what \<^verbatim>\<open>sort.Sort\<close> runs on two elements) leaves both
  as they are, and they differ.
\<close>

theorem sort_differs_on_permuted_ties:
  "format tiePatch2 = format tiePatch1 \<and>
   mset (patch tiePatch2) = mset (patch tiePatch1) \<and>
   insertionSort natOps tiePatch1 0 (nat (PatchSort_Len tiePatch1)) = Inr tiePatch1 \<and>
   insertionSort natOps tiePatch2 0 (nat (PatchSort_Len tiePatch2)) = Inr tiePatch2 \<and>
   IsSorted natOps tiePatch1 = Inr True \<and>
   IsSorted natOps tiePatch2 = Inr True \<and>
   patch tiePatch1 \<noteq> patch tiePatch2"
proof -
  have less1: "PatchSort_Less natOps tiePatch1 (int (Suc 0)) (int (Suc 0) - 1) = Inr False"
    by (simp add: PatchSort_Less_def inRange_def tiePatch1_def Difference_Less_def
        Path_Equals_def)
  have less2: "PatchSort_Less natOps tiePatch2 (int (Suc 0)) (int (Suc 0) - 1) = Inr False"
    by (simp add: PatchSort_Less_def inRange_def tiePatch2_def Difference_Less_def
        Path_Equals_def)
  have len: "PatchSort_Len tiePatch1 = 2" "PatchSort_Len tiePatch2 = 2"
    by (simp_all add: PatchSort_Len_def tiePatch1_def tiePatch2_def)
  have n: "nat 2 = Suc (Suc 0)" "nat (2 - 1) = Suc 0"
    by simp_all
  have sort1: "insertionSort natOps tiePatch1 0 (nat (PatchSort_Len tiePatch1)) = Inr tiePatch1"
    unfolding insertionSort_def len n
    by (simp add: insertionSort_outer.simps less1 del: of_nat_Suc)
  have sort2: "insertionSort natOps tiePatch2 0 (nat (PatchSort_Len tiePatch2)) = Inr tiePatch2"
    unfolding insertionSort_def len n
    by (simp add: insertionSort_outer.simps less2 del: of_nat_Suc)
  have sorted1: "IsSorted natOps tiePatch1 = Inr True"
    unfolding IsSorted_def len n by (simp add: less1 del: of_nat_Suc)
  have sorted2: "IsSorted natOps tiePatch2 = Inr True"
    unfolding IsSorted_def len n by (simp add: less2 del: of_nat_Suc)
  have "format tiePatch2 = format tiePatch1"
    "mset (patch tiePatch2) = mset (patch tiePatch1)"
    "patch tiePatch1 \<noteq> patch tiePatch2"
    by (simp_all add: tiePatch1_def tiePatch2_def)
  with sort1 sort2 sorted1 sorted2 show ?thesis by blast
qed

section \<open>The claims on MergeCommits\<close>

text \<open>
  Claim C7 asks that no \<^verbatim>\<open>PutTable\<close> or \<^verbatim>\<open>RemoveTables\<close> is called before \<^verbatim>\<open>MergeTable\<close> has
  succeeded for every table of the union, as the comment above the loop of
  \<^verbatim>\<open>MergeCommits\<close> announces. The loop calls \<^verbatim>\<open>PutTable\<close> for a table right after its
  \<^verbatim>\<open>MergeTable\<close>: in the example environment with \<open>bFails\<close> set, \<^verbatim>\<open>PutTable\<close> is called
  for the table a before \<^verbatim>\<open>MergeTable\<close> is called for the table b, which then fails.
\<close>

theorem MergeCommits_puts_before_all_merged:
  "MergeCommits_calls (exampleEnv True) 1 2 =
     [CallNewMerger, CallGetRootValue, CallGetRootValue, CallUnionTableNames,
      CallMergeTable ''a'', CallPutTable ''a'', CallMergeTable ''b''] \<and>
   MergeTable (exampleEnv True) () ''b'' = Inl ''cannot merge'' \<and>
   MergeCommits (exampleEnv True) 1 2 = Inr (None, None, Some ''cannot merge'')"
  by (simp add: MergeCommits_calls_def MergeCommits_def MergeCommits_run_def exampleEnv_def)

text \<open>
  Claim C8. Let root values behave as mappings (\<open>rootContract\<close>) and let the union of the
  table names be free of repetitions. For a table name of the union for which
  \<^verbatim>\<open>MergeTable\<close> returns no merged table while the root of \<^verbatim>\<open>cm1\<close> has the table:
  whenever \<^verbatim>\<open>MergeCommits\<close> returns without an error, its statistics map holds for that
  table an entry with Operation = TableRemoved, and the merged root it returns does not
  have the table; and \<^verbatim>\<open>MergeCommits\<close> does return without an error when no collaborator
  fails (\<open>collaboratorsSucceed\<close>).
\<close>

theorem MergeCommits_removed_table:
  assumes "rootContract env"
    and "NewMerger env cm1 cm2 = Inr merger"
    and "GetRootValue env cm1 = Inr root1"
    and "GetRootValue env cm2 = Inr root2"
    and "UnionTableNames env root1 root2 = Inr tblNames"
    and "distinct tblNames"
    and "tblName \<in> set tblNames"
    and "MergeTable env merger tblName = Inr (None, st)"
    and "HasTable env root1 tblName = Inr True"
  shows
    "(\<forall>mergedRoot tblToStats.
        MergeCommits env cm1 cm2 = Inr (Some mergedRoot, Some tblToStats, None) \<longrightarrow>
        tblToStats tblName = Some (Some removedStats) \<and>
        Operation removedStats = TableRemoved \<and>
        HasTable env mergedRoot tblName = Inr False) \<and>
     (collaboratorsSucceed env merger tblNames root1 \<longrightarrow>
        (\<exists>mergedRoot tblToStats.
           MergeCommits env cm1 cm2 = Inr (Some mergedRoot, Some tblToStats, None)))"
proof -
  have run: "MergeCommits env cm1 cm2 =
     snd (MergeCommits_loop env merger tblNames root1 Map.empty
       [CallNewMerger, CallGetRootValue, CallGetRootValue, CallUnionTableNames])"
    using assms(2-5) unfolding MergeCommits_def MergeCommits_run_def by simp
  have "tblToStats tblName = Some (Some removedStats) \<and>
        Operation removedStats = TableRemoved \<and>
        HasTable env mergedRoot tblName = Inr False"
    if "MergeCommits env cm1 cm2 = Inr (Some mergedRoot, Some tblToStats, None)"
    for mergedRoot tblToStats
    using MergeCommits_loop_removed [OF assms(1) that [unfolded run] assms(6,7,8)]
    by (simp add: removedStats_def)
  moreover have "\<exists>mergedRoot tblToStats.
       MergeCommits env cm1 cm2 = Inr (Some mergedRoot, Some tblToStats, None)"
    if "collaboratorsSucceed env merger tblNames root1"
    unfolding run by (rule MergeCommits_loop_succeeds [OF assms(1) that assms(6)])
  ultimately show ?thesis by blast
qed

theorem MergeCommits_removed_table_witness:
  "rootContract (exampleEnv False) \<and>
   NewMerger (exampleEnv False) 1 2 = Inr () \<and>
   GetRootValue (exampleEnv False) 1 = Inr [(''a'', 1), (''b'', 2)] \<and>
   GetRootValue (exampleEnv False) 2 = Inr [(''a'', 10)] \<and>
   UnionTableNames (exampleEnv False) [(''a'', 1), (''b'', 2)] [(''a'', 10)] = Inr [''a'', ''b''] \<and>
   distinct [''a'', ''b''] \<and> ''b'' \<in> set [''a'', ''b''] \<and>
   MergeTable (exampleEnv False) () ''b'' = Inr (None, None) \<and>
   HasTable (exampleEnv False) [(''a'', 1), (''b'', 2)] ''b'' = Inr True \<and>
   collaboratorsSucceed (exampleEnv False) () [''a'', ''b''] [(''a'', 1), (''b'', 2)] \<and>
   MergeCommits (exampleEnv False) 1 2 =
     Inr (Some [(''a'', 11)],
          Some [''a'' \<mapsto> Some exampleStats, ''b'' \<mapsto> Some removedStats], None) \<and>
   [''a'' \<mapsto> Some exampleStats, ''b'' \<mapsto> Some removedStats] ''b'' = Some (Some removedStats) \<and>
   HasTable (exampleEnv False) [(''a'', 11)] ''b'' = Inr False"
proof -
  have c: "rootContract (exampleEnv False)"
    unfolding rootContract_def exampleEnv_def by (auto simp add: image_iff) force+
  have h: "NewMerger (exampleEnv False) 1 2 = Inr ()"
    "GetRootValue (exampleEnv False) 1 = Inr [(''a'', 1), (''b'', 2)]"
    "GetRootValue (exampleEnv False) 2 = Inr [(''a'', 10)]"
    "UnionTableNames (exampleEnv False) [(''a'', 1), (''b'', 2)] [(''a'', 10)] = Inr [''a'', ''b'']"
    "distinct [''a'', ''b'']" "''b'' \<in> set [''a'', ''b'']"
    "MergeTable (exampleEnv False) () ''b'' = Inr (None, None)"
    "HasTable (exampleEnv False) [(''a'', 1), (''b'', 2)] ''b'' = Inr True"
    by (simp_all add: exampleEnv_def)
  have ok: "collaboratorsSucceed (exampleEnv False) () [''a'', ''b''] [(''a'', 1), (''b'', 2)]"
    unfolding collaboratorsSucceed_def exampleEnv_def by simp
  have run: "MergeCommits (exampleEnv False) 1 2 =
     Inr (Some [(''a'', 11)],
          Some [''a'' \<mapsto> Some exampleStats, ''b'' \<mapsto> Some removedStats], None)"
    by (simp add: MergeCommits_def MergeCommits_run_def exampleEnv_def)
  show ?thesis
    using c h ok run MergeCommits_removed_table [OF c h]
    by simp
qed

text \<open>
  Claim C10. Whenever \<^verbatim>\<open>MergeCommits\<close> returns an error that is not nil, the root value
  and the statistics map it returns are both nil.
\<close>

theorem MergeCommits_error_returns_nil:
  assumes "MergeCommits env cm1 cm2 = Inr (root, stats, Some err)"
  shows "root = None \<and> stats = None"
  using assms MergeCommits_loop_error [of env _ _ _ Map.empty _ root stats err]
  unfolding MergeCommits_def MergeCommits_run_def
  by (auto split: sum.splits)

theorem MergeCommits_error_returns_nil_witness:
  "MergeCommits (exampleEnv True) 1 2 = Inr (None, None, Some ''cannot merge'')"
proof -
  have "\<exists>root stats. MergeCommits (exampleEnv True) 1 2 = Inr (root, stats, Some ''cannot merge'')"
    by (simp add: MergeCommits_def MergeCommits_run_def exampleEnv_def)
  then obtain root stats where
    run: "MergeCommits (exampleEnv True) 1 2 = Inr (root, stats, Some ''cannot merge'')"
    by blast
  from MergeCommits_error_returns_nil [OF run] run show ?thesis by simp
qed

end
